theory Spec2Isabelle
  imports Main "HOL-Library.Sublist"
begin

section \<open>Text\<close>

text \<open>
  A Python \<open>str\<close> is a sequence of Unicode code points, so it is modelled as a list of
  naturals; \<open>ustr\<close> turns an ASCII literal of the theory into such a list.
\<close>

type_synonym pystr = "nat list"

definition ustr :: "string \<Rightarrow> pystr" where
  "ustr cs = map of_char cs"

text \<open>The code points on which \<open>str.split()\<close> without arguments splits.\<close>

definition is_space :: "nat \<Rightarrow> bool" where
  "is_space c \<longleftrightarrow>
     (9 \<le> c \<and> c \<le> 13) \<or> (28 \<le> c \<and> c \<le> 32) \<or> c = 133 \<or> c = 160 \<or> c = 5760 \<or>
     (8192 \<le> c \<and> c \<le> 8202) \<or> c = 8232 \<or> c = 8233 \<or> c = 8239 \<or> c = 8287 \<or> c = 12288"

text \<open>\<open>tokens cur s\<close> scans \<open>s\<close> with the word \<open>cur\<close> read so far.\<close>

fun tokens :: "pystr \<Rightarrow> pystr \<Rightarrow> pystr list" where
  "tokens cur [] = (if cur = [] then [] else [cur])"
| "tokens cur (c # cs) =
     (if is_space c then (if cur = [] then tokens [] cs else cur # tokens [] cs)
      else tokens (cur @ [c]) cs)"

text \<open>\<open>s.split()\<close>\<close>

definition split_ws :: "pystr \<Rightarrow> pystr list" where
  "split_ws s = tokens [] s"

text \<open>\<open>s.startswith(p)\<close>\<close>

definition startswith :: "pystr \<Rightarrow> pystr \<Rightarrow> bool" where
  "startswith s p \<longleftrightarrow> take (length p) s = p"

text \<open>The line boundaries of \<open>str.splitlines()\<close>; \<open>\r\n\<close> counts as one boundary.\<close>

definition is_linebreak :: "nat \<Rightarrow> bool" where
  "is_linebreak c \<longleftrightarrow>
     (10 \<le> c \<and> c \<le> 13) \<or> (28 \<le> c \<and> c \<le> 30) \<or> c = 133 \<or> c = 8232 \<or> c = 8233"

fun lines_from :: "pystr \<Rightarrow> pystr \<Rightarrow> pystr list" where
  "lines_from cur [] = (if cur = [] then [] else [cur])"
| "lines_from cur [c] = (if is_linebreak c then [cur] else [cur @ [c]])"
| "lines_from cur (c # d # cs) =
     (if c = 13 \<and> d = 10 then cur # lines_from [] cs
      else if is_linebreak c then cur # lines_from [] (d # cs)
      else lines_from (cur @ [c]) (d # cs))"

definition splitlines :: "pystr \<Rightarrow> pystr list" where
  "splitlines s = lines_from [] s"

text \<open>\<open>s.strip()\<close>\<close>

definition strip :: "pystr \<Rightarrow> pystr" where
  "strip s = rev (dropWhile is_space (rev (dropWhile is_space s)))"

text \<open>\<open>"%d" % i\<close> for a Python integer.\<close>

fun digits :: "nat \<Rightarrow> pystr" where
  "digits n = (if n < 10 then [48 + n] else digits (n div 10) @ [48 + n mod 10])"

declare digits.simps [simp del]

definition str_int :: "int \<Rightarrow> pystr" where
  "str_int i = (if i < 0 then 45 # digits (nat (- i)) else digits (nat i))"

text \<open>\<open>"%s" % x\<close> where \<open>x\<close> is a string or \<open>None\<close>.\<close>

definition str_opt :: "pystr option \<Rightarrow> pystr" where
  "str_opt x = (case x of None \<Rightarrow> ustr ''None'' | Some t \<Rightarrow> t)"

section \<open>Values, exceptions and the outside world\<close>

text \<open>
  The exceptions the script can meet. \<open>CalledProcessError\<close> carries the exit status,
  \<open>CustomException\<close> is the script's own class with its message. The three Selenium
  classes below \<open>WebDriverException\<close> are its subclasses.
\<close>

datatype exn =
    CalledProcessError int
  | OSError
  | IndexError
  | AttributeError
  | TypeError
  | AssertionError
  | CustomException pystr
  | WebDriverException
  | JavascriptException
  | NoSuchElementException
  | TimeoutException
  | OtherException

text \<open>What \<open>except WebDriverException\<close> catches.\<close>

fun is_WebDriverException :: "exn \<Rightarrow> bool" where
  "is_WebDriverException WebDriverException = True"
| "is_WebDriverException JavascriptException = True"
| "is_WebDriverException NoSuchElementException = True"
| "is_WebDriverException TimeoutException = True"
| "is_WebDriverException _ = False"

text \<open>
  The values a script evaluated in the page hands back, as Python sees them: \<open>None\<close>,
  a boolean, an integer or a string. Lists, objects and fractional numbers do not occur in
  the scripts of this program and are left out.
\<close>

datatype pyval = PNone | PBool bool | PInt int | PStr pystr

fun num_of :: "pyval \<Rightarrow> int option" where
  "num_of (PBool b) = Some (if b then 1 else 0)"
| "num_of (PInt i) = Some i"
| "num_of _ = None"

text \<open>Python's \<open>==\<close> on these values: \<open>bool\<close> is a subclass of \<open>int\<close>.\<close>

definition py_eq :: "pyval \<Rightarrow> pyval \<Rightarrow> bool" where
  "py_eq a b =
     (case (num_of a, num_of b) of
        (Some x, Some y) \<Rightarrow> x = y
      | (None, None) \<Rightarrow> a = b
      | _ \<Rightarrow> False)"

datatype script_outcome = Returned pyval | Raised exn

datatype proc_result = Not_started | Exited int pystr

datatype chain_item = Key_down pystr | Key_up pystr | Send_keys pystr

text \<open>
  The calls into the operating system and the browser driver that hand back nothing the
  script looks at. Elements are named by the selector they were found with.
\<close>

datatype action =
    Mkdir pystr
  | Kill nat
  | New_driver bool
  | Get "pystr option"
  | Quit
  | Wait_text pystr pystr
  | Find_element pystr
  | Window_handle
  | Switch_to_frame pystr
  | Switch_to_window
  | Element_send_keys pystr pystr
  | Click pystr
  | Perform "chain_item list"

text \<open>
  What a run does to the outside, in order. \<open>Exec\<close> has the argument vector, the working
  directory and whether the environment pinning the trace directory was passed.
\<close>

datatype event =
    Print_out pystr
  | Print_err pystr
  | Exec "pystr list" "pystr option" bool
  | Popen nat "pystr list"
  | Act action "exn option"
  | Script pystr script_outcome
  | Sleep_ms nat
  | Wait_exit nat

text \<open>The standard output of a child process: a possibly endless sequence of lines.\<close>

codatatype 'a llist = LNil | LCons 'a "'a llist"

text \<open>
  The outside world answers every call of the script. Each answer is indexed by \<open>tick\<close>,
  the number of calls answered so far, so a call repeated later may be answered otherwise.
  \<^item> \<open>mkdtemp\<close>: the directory \<open>tempfile.mkdtemp()\<close> creates;
  \<^item> \<open>proc\<close>: a child process run to its end: not started, or an exit status and its output;
  \<^item> \<open>popen\<close>: a child process started in the background: \<open>None\<close> when it cannot be
    started, else the lines of its standard output;
  \<^item> \<open>exits\<close>: whether the background process with that handle ever exits;
  \<^item> \<open>raises\<close>: the exception an action raises, if any;
  \<^item> \<open>script_result\<close>: what \<open>driver.execute_script\<close> does;
  \<^item> \<open>polls\<close>: how many further polls fit into the time-out of a wait begun at that tick.
\<close>

record world =
  mkdtemp :: pystr
  proc :: "nat \<Rightarrow> pystr list \<Rightarrow> proc_result"
  popen :: "nat \<Rightarrow> pystr list \<Rightarrow> pystr llist option"
  exits :: "nat \<Rightarrow> bool"
  raises :: "nat \<Rightarrow> action \<Rightarrow> exn option"
  script_result :: "nat \<Rightarrow> pystr \<Rightarrow> script_outcome"
  polls :: "nat \<Rightarrow> nat \<Rightarrow> nat"

text \<open>The parsed command line, with \<open>tmpdir\<close> already chosen.\<close>

record cfg =
  headless :: bool
  no_pull :: bool
  tmpdir :: pystr

text \<open>
  The module's global variables, the number of calls answered and the events so far.
  \<open>server\<close> and \<open>driver\<close> hold handles; the handle of a process is the tick it was
  started at.
\<close>

record state =
  trace_dir :: "pystr option"
  next_trace_id :: int
  driver :: "nat option"
  url :: "pystr option"
  server :: "nat option"
  tick :: nat
  log :: "event list"

definition initial :: state where
  "initial = \<lparr>trace_dir = None, next_trace_id = 0, driver = None, url = None,
              server = None, tick = 0, log = []\<rparr>"

section \<open>Names and constants of the script\<close>

definition TIMEOUT :: nat where
  "TIMEOUT = 60"

definition testdir :: "cfg \<Rightarrow> pystr" where
  "testdir c = tmpdir c @ ustr ''/pernosco-submit-test''"

definition tmpdir_alias :: "cfg \<Rightarrow> pystr" where
  "tmpdir_alias c = tmpdir c @ ustr ''/alias''"

definition testdir_alias :: "cfg \<Rightarrow> pystr" where
  "testdir_alias c = tmpdir_alias c @ ustr ''/pernosco-submit-test''"

definition storage_dir :: "cfg \<Rightarrow> pystr" where
  "storage_dir c = tmpdir c @ ustr ''/storage''"

definition pernosco_cmd :: "cfg \<Rightarrow> pystr list" where
  "pernosco_cmd c =
     [ustr ''./pernosco'', ustr ''-x'', ustr ''--log'', ustr ''info:/proc/self/fd/2'']
     @ (if no_pull c then [ustr ''--no-pull''] else [])"

definition test_git_revision :: pystr where
  "test_git_revision = ustr ''84861f84a7462c2b4e04b7b41f7f83616c83c8dc''"

section \<open>Primitive steps\<close>

text \<open>
  A statement takes the state and gives the exception it raised, if any, and the new state.
\<close>

type_synonym 'a result = "(exn + 'a) \<times> state"
type_synonym outcome = "exn option \<times> state"

definition emit :: "event \<Rightarrow> state \<Rightarrow> state" where
  "emit e s = s\<lparr>log := log s @ [e]\<rparr>"

definition answered :: "state \<Rightarrow> state" where
  "answered s = s\<lparr>tick := Suc (tick s)\<rparr>"

text \<open>\<open>print(text)\<close> and \<open>print(text, file=sys.stderr)\<close>: the text and a newline.\<close>

definition print_out :: "pystr \<Rightarrow> state \<Rightarrow> outcome" where
  "print_out text s = (None, emit (Print_out (text @ [10])) s)"

definition print_err :: "pystr \<Rightarrow> state \<Rightarrow> outcome" where
  "print_err text s = (None, emit (Print_err (text @ [10])) s)"

text \<open>\<open>subprocess.check_call\<close>: a status other than zero raises.\<close>

definition check_call :: "world \<Rightarrow> pystr list \<Rightarrow> pystr option \<Rightarrow> bool \<Rightarrow> state \<Rightarrow> outcome" where
  "check_call w argv cwd env s =
     (let s' = emit (Exec argv cwd env) (answered s) in
      case proc w (tick s) argv of
        Not_started \<Rightarrow> (Some OSError, s')
      | Exited rc out \<Rightarrow> if rc \<noteq> 0 then (Some (CalledProcessError rc), s') else (None, s'))"

text \<open>\<open>subprocess.check_output\<close>: the same, handing back the output.\<close>

definition check_output :: "world \<Rightarrow> pystr list \<Rightarrow> state \<Rightarrow> pystr result" where
  "check_output w argv s =
     (let s' = emit (Exec argv None False) (answered s) in
      case proc w (tick s) argv of
        Not_started \<Rightarrow> (Inl OSError, s')
      | Exited rc out \<Rightarrow> if rc \<noteq> 0 then (Inl (CalledProcessError rc), s') else (Inr out, s'))"

text \<open>An action of the outside: it is recorded with what it raised.\<close>

definition act :: "world \<Rightarrow> action \<Rightarrow> state \<Rightarrow> outcome" where
  "act w a s = (let r = raises w (tick s) a in (r, emit (Act a r) (answered s)))"

text \<open>A driver call needs the global \<open>driver\<close> to be set.\<close>

definition driver_act :: "world \<Rightarrow> action \<Rightarrow> state \<Rightarrow> outcome" where
  "driver_act w a s = (case driver s of None \<Rightarrow> (Some AttributeError, s) | Some d \<Rightarrow> act w a s)"

definition sleep_ms :: "nat \<Rightarrow> state \<Rightarrow> outcome" where
  "sleep_ms n s = (None, emit (Sleep_ms n) s)"

section \<open>The functions of the script\<close>

text \<open>\<open>build()\<close>\<close>

definition build :: "world \<Rightarrow> cfg \<Rightarrow> state \<Rightarrow> outcome" where
  "build w c s = check_call w [ustr ''./build.sh''] (Some (testdir c)) False s"

text \<open>\<open>record()\<close>: the two globals are assigned after the tracer has returned.\<close>

definition record_rr :: "world \<Rightarrow> cfg \<Rightarrow> state \<Rightarrow> outcome" where
  "record_rr w c s =
     (case check_call w [ustr ''rr'', ustr ''record'', testdir c @ ustr ''/out/main''] None True s of
        (Some e, s') \<Rightarrow> (Some e, s')
      | (None, s') \<Rightarrow>
          (None, s'\<lparr>trace_dir := Some (tmpdir c @ ustr ''/main-'' @ str_int (next_trace_id s')),
                    next_trace_id := next_trace_id s' + 1\<rparr>))"

text \<open>\<open>create_driver()\<close>: building the options and starting the browser is one action.\<close>

definition create_driver :: "world \<Rightarrow> cfg \<Rightarrow> state \<Rightarrow> outcome" where
  "create_driver w c s =
     (case act w (New_driver (headless c)) s of
        (Some e, s') \<Rightarrow> (Some e, s')
      | (None, s') \<Rightarrow> (None, s'\<lparr>driver := Some (tick s)\<rparr>))"

text \<open>
  \<open>open_browser(url)\<close>: the loop with its counter \<open>retries\<close>. Only a
  \<open>WebDriverException\<close> is caught.
\<close>

function open_browser_loop :: "world \<Rightarrow> pystr option \<Rightarrow> nat \<Rightarrow> state \<Rightarrow> outcome" where
  "open_browser_loop w u retries s =
     (let retries = retries + 1 in
      if retries > 100 then
        (Some (CustomException (ustr ''Too many retries'')),
         snd (print_err (ustr ''Too many retries loading '' @ str_opt u @ ustr '', bailing out'') s))
      else
        (case driver_act w (Get u) s of
           (None, s') \<Rightarrow> (None, s')
         | (Some e, s') \<Rightarrow>
             if is_WebDriverException e then open_browser_loop w u retries (snd (sleep_ms 50 s'))
             else (Some e, s')))"
  by pat_completeness auto
termination
  by (relation "measure (\<lambda>(w, u, retries, s). 101 - retries)") auto

declare open_browser_loop.simps [simp del]

definition open_browser :: "world \<Rightarrow> pystr option \<Rightarrow> state \<Rightarrow> outcome" where
  "open_browser w u s = open_browser_loop w u 0 s"

text \<open>\<open>focus_search()\<close>\<close>

definition focus_search :: "world \<Rightarrow> state \<Rightarrow> outcome" where
  "focus_search w s =
     driver_act w (Perform [Key_down [57353], Send_keys (ustr ''S''), Key_up [57353]]) s"

text \<open>\<open>script_succeeds(script, expected).__call__(driver)\<close>\<close>

definition script_succeeds :: "world \<Rightarrow> pystr \<Rightarrow> pyval \<Rightarrow> nat option \<Rightarrow> state \<Rightarrow> bool result" where
  "script_succeeds w script expected drv s =
     (case drv of
        None \<Rightarrow> (Inl AttributeError, s)
      | Some d \<Rightarrow>
          (let r = script_result w (tick s) script;
               s' = emit (Script script r) (answered s) in
           case r of
             Returned v \<Rightarrow> (Inr (py_eq v expected), s')
           | Raised e \<Rightarrow> if e = JavascriptException then (Inr False, s') else (Inl e, s')))"

text \<open>
  \<open>WebDriverWait(driver, TIMEOUT).until(script_succeeds(script, expected))\<close>, as the
  Selenium library runs it: the predicate is called until it gives a true value;
  \<open>NoSuchElementException\<close> from it is ignored, any other exception leaves the wait;
  when the time is up \<open>TimeoutException\<close> is raised. \<open>n\<close> is the number of polls left
  after this one.
\<close>

fun poll_script :: "world \<Rightarrow> pystr \<Rightarrow> pyval \<Rightarrow> nat option \<Rightarrow> nat \<Rightarrow> state \<Rightarrow> outcome" where
  "poll_script w script expected drv n s =
     (case script_succeeds w script expected drv s of
        (Inr b, s') \<Rightarrow>
          if b then (None, s')
          else (case n of 0 \<Rightarrow> (Some TimeoutException, s')
                | Suc m \<Rightarrow> poll_script w script expected drv m s')
      | (Inl e, s') \<Rightarrow>
          if e = NoSuchElementException then
            (case n of 0 \<Rightarrow> (Some TimeoutException, s')
             | Suc m \<Rightarrow> poll_script w script expected drv m s')
          else (Some e, s'))"

declare poll_script.simps [simp del]

definition until_script :: "world \<Rightarrow> pystr \<Rightarrow> pyval \<Rightarrow> state \<Rightarrow> outcome" where
  "until_script w script expected s =
     poll_script w script expected (driver s) (polls w (tick s) TIMEOUT) s"

text \<open>
  \<open>WebDriverWait(driver, TIMEOUT).until(EC.text_to_be_present_in_element(...))\<close>: the
  predicate is the library's own, so the whole wait is one action of the driver.
\<close>

definition until_text :: "world \<Rightarrow> pystr \<Rightarrow> pystr \<Rightarrow> state \<Rightarrow> outcome" where
  "until_text w selector text s = driver_act w (Wait_text selector text) s"

text \<open>The loop of \<open>start_server\<close> over the lines of the server's standard output.\<close>

partial_function (option) scan_stdout :: "pystr llist \<Rightarrow> state \<Rightarrow> outcome option" where
  "scan_stdout ls s =
     (case ls of
        LNil \<Rightarrow> Some (None, s)
      | LCons line rest \<Rightarrow>
          (let s' = snd (print_out line s) in
           case split_ws line of
             [] \<Rightarrow> Some (Some IndexError, s')
           | t # ts \<Rightarrow>
               (let last_word = last (t # ts) in
                if startswith last_word (ustr ''http:'') then Some (None, s'\<lparr>url := Some last_word\<rparr>)
                else scan_stdout rest s')))"

definition server_argv :: "cfg \<Rightarrow> pystr \<Rightarrow> pystr list" where
  "server_argv c td =
     pernosco_cmd c @
     [ustr ''--user'', ustr ''1200'', ustr ''serve'', ustr ''--storage'', storage_dir c,
      ustr ''--sources'', tmpdir c @ ustr ''='' @ tmpdir_alias c,
      ustr ''--sources'', ustr ''/usr'', td]"

text \<open>
  \<open>start_server()\<close>. \<open>Popen\<close> refuses \<open>None\<close> in its argument list; when it cannot
  start the process nothing is assigned. \<open>None\<close> as the result is a scan that never ends.
\<close>

definition start_server :: "world \<Rightarrow> cfg \<Rightarrow> state \<Rightarrow> outcome option" where
  "start_server w c s =
     (case trace_dir s of
        None \<Rightarrow> Some (Some TypeError, s)
      | Some td \<Rightarrow>
          (case popen w (tick s) (server_argv c td) of
             None \<Rightarrow> Some (Some OSError, answered s)
           | Some out \<Rightarrow>
               scan_stdout out
                 ((emit (Popen (tick s) (server_argv c td)) (answered s))
                    \<lparr>server := Some (tick s), url := None\<rparr>)))"

text \<open>\<open>os.kill(server.pid, signal.SIGINT)\<close>\<close>

definition interrupt_server :: "world \<Rightarrow> state \<Rightarrow> outcome" where
  "interrupt_server w s =
     (case server s of None \<Rightarrow> (Some AttributeError, s) | Some k \<Rightarrow> act w (Kill k) s)"

text \<open>\<open>server.wait()\<close>: it returns when the process has exited, and never otherwise.\<close>

definition wait_server :: "world \<Rightarrow> state \<Rightarrow> outcome option" where
  "wait_server w s =
     (case server s of
        None \<Rightarrow> Some (Some AttributeError, s)
      | Some k \<Rightarrow> if exits w k then Some (None, emit (Wait_exit k) s) else None)"

text \<open>The check that no container is left (lines 239 to 242).\<close>

definition check_containers :: "world \<Rightarrow> state \<Rightarrow> outcome" where
  "check_containers w s =
     (case check_output w [ustr ''docker'', ustr ''ps'', ustr ''-aq''] s of
        (Inl e, s') \<Rightarrow> (Some e, s')
      | (Inr out, s') \<Rightarrow>
          (let output = strip out in
           if length output > 0 then
             (Some AssertionError,
              snd (print_err (ustr ''Docker containers still running:'' @ [10] @ output) s'))
           else (None, s')))"

text \<open>The listing of the archive and the assertion on it (lines 246 and 247).\<close>

definition expected_member :: "cfg \<Rightarrow> pystr" where
  "expected_member c = tmpdir c @ ustr ''/pernosco-submit-test/out/message.h''"

definition verify_export :: "world \<Rightarrow> cfg \<Rightarrow> state \<Rightarrow> outcome" where
  "verify_export w c s =
     (case check_output w
             [ustr ''unzip'', ustr ''-Z1'', str_opt (trace_dir s) @ ustr ''/files.user/sources.zip''] s of
        (Inl e, s') \<Rightarrow> (Some e, s')
      | (Inr out, s') \<Rightarrow>
          (let zip_files = splitlines out in
           if expected_member c \<in> set zip_files then (None, s') else (Some AssertionError, s')))"

section \<open>The script\<close>

text \<open>
  The statements at the top level of the module run one after the other on the global
  state; the first exception ends the run. A statement that never returns gives \<open>None\<close>.
\<close>

type_synonym step = "state \<Rightarrow> outcome option"

definition total :: "(state \<Rightarrow> outcome) \<Rightarrow> step" where
  "total f s = Some (f s)"

fun run_steps :: "step list \<Rightarrow> state \<Rightarrow> outcome option" where
  "run_steps [] s = Some (None, s)"
| "run_steps (f # fs) s =
     (case f s of
        None \<Rightarrow> None
      | Some (Some e, s') \<Rightarrow> Some (Some e, s')
      | Some (None, s') \<Rightarrow> run_steps fs s')"

definition value_script :: pystr where
  "value_script = ustr ''return document.querySelector('#main > .notebook > .contents > div > div:nth-child(2) > textarea').value;''"

definition focus_script :: pystr where
  "focus_script = ustr ''return document.querySelector('#main > .notebook > .contents > div').classList.contains('focus');''"

definition title_selector :: pystr where
  "title_selector = ustr ''.view.source > .viewTitle''"

definition frame_selector :: pystr where
  "frame_selector = ustr ''#main > .view.source iframe''"

definition monaco_selector :: pystr where
  "monaco_selector = ustr ''#monaco-container''"

definition search_selector :: pystr where
  "search_selector = ustr ''#searchInput''"

definition dropdown_selector :: pystr where
  "dropdown_selector = ustr ''#searchDropdown > *:nth-child(1)''"

definition execution_selector :: pystr where
  "execution_selector = ustr ''#main > .execution > .contents > div''"

definition note_selector :: pystr where
  "note_selector = ustr ''#main > .notebook > .contents > div > div.tentative''"

text \<open>Lines 49 and 141 to 145: the working directory, its alias and the bind mount.\<close>

definition provision :: "world \<Rightarrow> cfg \<Rightarrow> step list" where
  "provision w c =
     [total (print_err (ustr ''Working directory: '' @ tmpdir c)),
      total (check_call w [ustr ''git'', ustr ''clone'',
                            ustr ''https://github.com/Pernosco/pernosco-submit-test'']
               (Some (tmpdir c)) False),
      total (check_call w [ustr ''git'', ustr ''checkout'', ustr ''-q'', test_git_revision]
               (Some (testdir c)) False),
      total (check_call w [ustr ''mkdir'', ustr ''-p'', testdir_alias c] None False),
      total (print_out (ustr ''Mounting filesystem into test'')),
      total (check_call w [ustr ''sudo'', ustr ''mount'', ustr ''--bind'', testdir c, testdir_alias c]
               None False)]"

text \<open>Lines 146 to 154: build, record, pull unless told not to, check the trace.\<close>

definition prepare_trace :: "world \<Rightarrow> cfg \<Rightarrow> step list" where
  "prepare_trace w c =
     [total (build w c),
      total (record_rr w c),
      total (\<lambda>s. if \<not> no_pull c then check_call w [ustr ''./pernosco'', ustr ''pull''] None False s
                  else (None, s)),
      total (check_call w (pernosco_cmd c @ [ustr ''--user'', ustr ''1200'', ustr ''build'',
                                              ustr ''--check-trace'']) None True),
      total (act w (Mkdir (storage_dir c)))]"

text \<open>Lines 156 and 157: the server.\<close>

definition launch :: "world \<Rightarrow> cfg \<Rightarrow> step list" where
  "launch w c =
     [total (print_out (ustr ''Starting server'')),
      start_server w c]"

text \<open>Lines 158 to 161: the browser and the first page, at the address found.\<close>

definition browse :: "world \<Rightarrow> cfg \<Rightarrow> step list" where
  "browse w c =
     [total (\<lambda>s. print_out (ustr ''Opening browser at  '' @ str_opt (url s) @ ustr ''  to run tests'') s),
      total (create_driver w c),
      total (\<lambda>s. open_browser w (url s) s),
      total (print_out (ustr ''Browser open, running tests''))]"

text \<open>Lines 162 to 195: the source view and the search for a function.\<close>

definition scenario_source :: "world \<Rightarrow> step list" where
  "scenario_source w =
     [total (until_text w title_selector (ustr ''_exit.c'')),
      total (driver_act w (Find_element frame_selector)),
      total (driver_act w Window_handle),
      total (driver_act w (Switch_to_frame frame_selector)),
      total (until_text w monaco_selector (ustr ''_exit ('')),
      total (driver_act w Switch_to_window),
      total (driver_act w (Find_element search_selector)),
      total (focus_search w),
      total (driver_act w (Element_send_keys search_selector (ustr ''helper_function''))),
      total (until_text w dropdown_selector (ustr ''helper_function'')),
      total (driver_act w (Element_send_keys search_selector [57350])),
      total (until_text w execution_selector (ustr ''helper_function'')),
      total (driver_act w (Find_element execution_selector)),
      total (driver_act w (Click execution_selector)),
      total (until_text w title_selector (ustr ''file.c'')),
      total (driver_act w (Switch_to_frame frame_selector)),
      total (until_text w monaco_selector (ustr ''helper_function'')),
      total (driver_act w Switch_to_window)]"

text \<open>Lines 198 to 212: the note is found and opened; its text area is empty.\<close>

definition open_note :: "world \<Rightarrow> step list" where
  "open_note w =
     [total (focus_search w),
      total (driver_act w (Element_send_keys search_selector (ustr ''notebook''))),
      total (until_text w dropdown_selector (ustr ''otebook'')),
      total (driver_act w (Element_send_keys search_selector [57350])),
      total (driver_act w (Find_element note_selector)),
      total (until_script w focus_script (PBool True)),
      total (driver_act w (Click note_selector)),
      total (until_script w value_script (PStr []))]"

text \<open>Lines 214 to 223: the text is typed and read back, then the page is left.\<close>

definition write_note :: "world \<Rightarrow> step list" where
  "write_note w =
     [total (driver_act w (Perform [Send_keys (ustr ''HelloKitty'')])),
      total (until_script w value_script (PStr (ustr ''HelloKitty''))),
      total (sleep_ms 2000),
      total (driver_act w (Get (Some (ustr ''about:blank''))))]"

text \<open>Lines 225 to 228: the server is stopped and started again.\<close>

definition restart :: "world \<Rightarrow> cfg \<Rightarrow> step list" where
  "restart w c =
     [total (interrupt_server w),
      wait_server w,
      start_server w c]"

text \<open>Lines 229 to 232: the note is read back from the new server.\<close>

definition verify_persisted :: "world \<Rightarrow> step list" where
  "verify_persisted w =
     [total (\<lambda>s. open_browser w (url s) s),
      total (until_script w value_script (PStr (ustr ''HelloKitty'')))]"

text \<open>Lines 234 to 236.\<close>

definition shutdown :: "world \<Rightarrow> step list" where
  "shutdown w =
     [total (driver_act w Quit),
      total (interrupt_server w),
      wait_server w]"

text \<open>Lines 239 to 251: containers, the export, the unmount and the verdict.\<close>

definition pass_marker :: event where
  "pass_marker = Print_err (([10] @ ustr ''PASS'') @ [10])"

definition finish :: "world \<Rightarrow> cfg \<Rightarrow> step list" where
  "finish w c =
     [total (check_containers w),
      total (check_call w (pernosco_cmd c @ [ustr ''--user'', ustr ''1200'', ustr ''build'',
                                              ustr ''--copy-sources'', ustr ''/'']) None True),
      total (verify_export w c),
      total (check_call w [ustr ''sudo'', ustr ''umount'', testdir_alias c] None False),
      total (print_err ([10] @ ustr ''PASS''))]"

definition steps :: "world \<Rightarrow> cfg \<Rightarrow> step list" where
  "steps w c =
     provision w c @ prepare_trace w c @ launch w c @ browse w c @ scenario_source w
     @ open_note w @ write_note w @ restart w c @ verify_persisted w @ shutdown w @ finish w c"

text \<open>A run of the script from the initial values of its globals.\<close>

definition script :: "world \<Rightarrow> cfg \<Rightarrow> outcome option" where
  "script w c = run_steps (steps w c) initial"

text \<open>Lines 39 to 47: \<open>tmpdir\<close> is the argument when there is one, else a fresh directory.\<close>

record args =
  arg_headless :: bool
  arg_no_pull :: bool
  arg_tmpdir :: "pystr option"

definition configure :: "world \<Rightarrow> args \<Rightarrow> cfg" where
  "configure w a =
     \<lparr>headless = arg_headless a, no_pull = arg_no_pull a,
      tmpdir = (case arg_tmpdir a of Some d \<Rightarrow> d | None \<Rightarrow> mkdtemp w)\<rparr>"

definition main :: "world \<Rightarrow> args \<Rightarrow> outcome option" where
  "main w a = script w (configure w a)"

section \<open>Notions used in the statements\<close>

text \<open>The navigation attempts to \<open>u\<close> among the events.\<close>

definition navigations :: "pystr option \<Rightarrow> event list \<Rightarrow> nat" where
  "navigations u l = length (filter (\<lambda>e. case e of Act (Get v) r \<Rightarrow> v = u | _ \<Rightarrow> False) l)"

text \<open>A stream that begins with the lines \<open>pre\<close>.\<close>

primrec lapp :: "'a list \<Rightarrow> 'a llist \<Rightarrow> 'a llist" where
  "lapp [] r = r"
| "lapp (x # xs) r = LCons x (lapp xs r)"

text \<open>A line of white space only, and a line whose last word begins with \<open>http:\<close>.\<close>

definition blank :: "pystr \<Rightarrow> bool" where
  "blank line = list_all is_space line"

definition url_line :: "pystr \<Rightarrow> bool" where
  "url_line line =
     (case split_ws line of [] \<Rightarrow> False | t # ts \<Rightarrow> startswith (last (t # ts)) (ustr ''http:''))"

text \<open>The event of echoing a line of the server.\<close>

definition echo :: "pystr \<Rightarrow> event" where
  "echo line = Print_out (line @ [10])"

text \<open>
  The events of a server's life: it is started, it is sent the interrupt signal, its exit
  has been waited for. A harmless event is neither of these nor the verdict.
\<close>

definition lifecycle :: "event \<Rightarrow> bool" where
  "lifecycle e =
     (case e of Popen k a \<Rightarrow> True | Act (Kill k) None \<Rightarrow> True | Wait_exit k \<Rightarrow> True
      | _ \<Rightarrow> False)"

definition harmless :: "event \<Rightarrow> bool" where
  "harmless e \<longleftrightarrow> \<not> lifecycle e \<and> e \<noteq> pass_marker"

text \<open>
  \<open>quiet s s'\<close>: from \<open>s\<close> to \<open>s'\<close> only harmless events were added, and the server
  handle and the trace directory are the same; \<open>tame\<close> leaves the trace directory out.
\<close>

definition quiet :: "state \<Rightarrow> state \<Rightarrow> bool" where
  "quiet s s' \<longleftrightarrow>
     tick s \<le> tick s' \<and> server s' = server s \<and> trace_dir s' = trace_dir s
     \<and> (\<exists>l. log s' = log s @ l \<and> list_all harmless l)"

definition tame :: "state \<Rightarrow> state \<Rightarrow> bool" where
  "tame s s' \<longleftrightarrow>
     tick s \<le> tick s' \<and> server s' = server s \<and> (\<exists>l. log s' = log s @ l \<and> list_all harmless l)"

text \<open>Every result of the step is related to the state it started from.\<close>

definition step_rel :: "(state \<Rightarrow> state \<Rightarrow> bool) \<Rightarrow> step \<Rightarrow> bool" where
  "step_rel R f \<longleftrightarrow> (\<forall>s r s'. f s = Some (r, s') \<longrightarrow> R s s')"

text \<open>
  The life of the two servers of a run, in order, and the states in which the first \<open>n\<close>
  of these events have happened; \<open>td\<close> is the trace directory both servers are given.
\<close>

definition full :: "nat \<Rightarrow> nat \<Rightarrow> pystr list \<Rightarrow> event list" where
  "full k1 k2 a =
     [Popen k1 a, Act (Kill k1) None, Wait_exit k1, Popen k2 a, Act (Kill k2) None, Wait_exit k2]"

definition at_stage :: "cfg \<Rightarrow> nat \<Rightarrow> state \<Rightarrow> bool" where
  "at_stage c n s \<longleftrightarrow>
     (\<exists>k1 k2 td. k1 < k2
        \<and> filter lifecycle (log s) = take n (full k1 k2 (server_argv c td))
        \<and> (1 \<le> n \<longrightarrow> trace_dir s = Some td \<and> k1 < tick s)
        \<and> (n = 1 \<or> n = 2 \<longrightarrow> server s = Some k1)
        \<and> (4 \<le> n \<longrightarrow> server s = Some k2 \<and> k2 < tick s))"

definition reached :: "cfg \<Rightarrow> state \<Rightarrow> bool" where
  "reached c s \<longleftrightarrow> (\<exists>n\<le>6. at_stage c n s)"

text \<open>
  From a state with \<open>P\<close>, the steps end in a state with \<open>Q\<close> when none raises and in a
  state with \<open>E\<close> when one does.
\<close>

definition hoare :: "(state \<Rightarrow> bool) \<Rightarrow> step list \<Rightarrow> (state \<Rightarrow> bool) \<Rightarrow> (state \<Rightarrow> bool) \<Rightarrow> bool" where
  "hoare P fs Q E \<longleftrightarrow>
     (\<forall>s r s'. P s \<longrightarrow> run_steps fs s = Some (r, s') \<longrightarrow> (if r = None then Q s' else E s'))"

text \<open>
  How often the server with handle \<open>k\<close> was sent the interrupt signal and how often its exit
  was waited for; \<open>shutdowns\<close> counts the interrupts followed at once by the wait.
\<close>

definition interrupts :: "nat \<Rightarrow> event list \<Rightarrow> nat" where
  "interrupts k l = count_list l (Act (Kill k) None)"

definition waits :: "nat \<Rightarrow> event list \<Rightarrow> nat" where
  "waits k l = count_list l (Wait_exit k)"

fun shutdowns :: "nat \<Rightarrow> event list \<Rightarrow> nat" where
  "shutdowns k (a # b # l) =
     (if a = Act (Kill k) None \<and> b = Wait_exit k then 1 else 0) + shutdowns k (b # l)"
| "shutdowns k l = 0"

text \<open>
  \<open>unmarked s s'\<close>: from \<open>s\<close> to \<open>s'\<close> events were added, the verdict not among them.
\<close>

definition unmarked :: "state \<Rightarrow> state \<Rightarrow> bool" where
  "unmarked s s' \<longleftrightarrow> (\<exists>l. log s' = log s @ l \<and> pass_marker \<notin> set l)"

text \<open>The steps of \<open>finish\<close> before the verdict, and all steps before the verdict.\<close>

definition checks :: "world \<Rightarrow> cfg \<Rightarrow> step list" where
  "checks w c = butlast (finish w c)"

definition body :: "world \<Rightarrow> cfg \<Rightarrow> step list" where
  "body w c =
     provision w c @ prepare_trace w c @ launch w c @ browse w c @ scenario_source w
     @ open_note w @ write_note w @ restart w c @ verify_persisted w @ shutdown w @ checks w c"

text \<open>The commands of the last steps and the events a passing run ends with.\<close>

definition copy_sources_argv :: "cfg \<Rightarrow> pystr list" where
  "copy_sources_argv c =
     pernosco_cmd c @ [ustr ''--user'', ustr ''1200'', ustr ''build'', ustr ''--copy-sources'', ustr ''/'']"

definition unzip_argv :: "pystr option \<Rightarrow> pystr list" where
  "unzip_argv td = [ustr ''unzip'', ustr ''-Z1'', str_opt td @ ustr ''/files.user/sources.zip'']"

definition final_events :: "cfg \<Rightarrow> pystr option \<Rightarrow> event list" where
  "final_events c td =
     [Exec [ustr ''docker'', ustr ''ps'', ustr ''-aq''] None False,
      Exec (copy_sources_argv c) None True,
      Exec (unzip_argv td) None False,
      Exec [ustr ''sudo'', ustr ''umount'', testdir_alias c] None False,
      pass_marker]"

text \<open>
  The number of places at which the text \<open>p\<close> occurs in a text: what the test
  \<open>p in text\<close> of a reader of the output is about.
\<close>

fun occurrences :: "pystr \<Rightarrow> pystr \<Rightarrow> nat" where
  "occurrences p [] = (if p = [] then 1 else 0)"
| "occurrences p (c # cs) = (if startswith (c # cs) p then 1 else 0) + occurrences p cs"

text \<open>
  What an event writes to the diagnostic stream and to either stream, and the text that
  the statements of the script have written to them in the course of a run. What the
  interpreter and the child processes write there themselves is not part of it.
\<close>

definition err_text :: "event \<Rightarrow> pystr" where
  "err_text e = (case e of Print_err t \<Rightarrow> t | _ \<Rightarrow> [])"

definition any_text :: "event \<Rightarrow> pystr" where
  "any_text e = (case e of Print_err t \<Rightarrow> t | Print_out t \<Rightarrow> t | _ \<Rightarrow> [])"

definition stderr_text :: "event list \<Rightarrow> pystr" where
  "stderr_text l = concat (map err_text l)"

definition printed_text :: "event list \<Rightarrow> pystr" where
  "printed_text l = concat (map any_text l)"

text \<open>
  The messages of lines 49, 87 and 241 as they reach the diagnostic stream: they quote the
  working directory, the address of the server and the answer of \<open>docker ps\<close>.
\<close>

definition working_directory :: "cfg \<Rightarrow> pystr" where
  "working_directory c = (ustr ''Working directory: '' @ tmpdir c) @ [10]"

definition too_many :: "pystr option \<Rightarrow> pystr" where
  "too_many u = (ustr ''Too many retries loading '' @ str_opt u @ ustr '', bailing out'') @ [10]"

definition still_running :: "pystr \<Rightarrow> pystr" where
  "still_running out = (ustr ''Docker containers still running:'' @ [10] @ out) @ [10]"

text \<open>
  The quoted texts of a run hold no \<open>PASS\<close>: the name of the working directory, the
  address in a message of line 87 and the answer in a message of line 241; and no line
  printed on the standard output holds one.
\<close>

definition clean_err :: "cfg \<Rightarrow> event list \<Rightarrow> bool" where
  "clean_err c l \<longleftrightarrow>
     occurrences (ustr ''PASS'') (tmpdir c) = 0
     \<and> (\<forall>u. Print_err (too_many u) \<in> set l \<longrightarrow> occurrences (ustr ''PASS'') (str_opt u) = 0)
     \<and> (\<forall>out. Print_err (still_running out) \<in> set l \<longrightarrow> occurrences (ustr ''PASS'') out = 0)"

definition clean_out :: "event list \<Rightarrow> bool" where
  "clean_out l \<longleftrightarrow> (\<forall>t. Print_out t \<in> set l \<longrightarrow> occurrences (ustr ''PASS'') t = 0)"

text \<open>
  The forms of the events of a run: on the diagnostic stream one of the three messages or
  the verdict, on the standard output a text that ends its line. A step is neat when it
  adds events of these forms only.
\<close>

definition tidy :: "cfg \<Rightarrow> event \<Rightarrow> bool" where
  "tidy c e \<longleftrightarrow>
     (case e of
        Print_err t \<Rightarrow> t = working_directory c \<or> (\<exists>u. t = too_many u)
                        \<or> (\<exists>out. t = still_running out) \<or> Print_err t = pass_marker
      | Print_out t \<Rightarrow> (\<exists>m. t = m @ [10])
      | _ \<Rightarrow> True)"

definition neat :: "cfg \<Rightarrow> state \<Rightarrow> state \<Rightarrow> bool" where
  "neat c s s' \<longleftrightarrow> (\<exists>l. log s' = log s @ l \<and> list_all (tidy c) l)"

subsection \<open>Concrete inputs\<close>

definition c0 :: cfg where
  "c0 = \<lparr>headless = True, no_pull = True, tmpdir = ustr ''/tmp/t''\<rparr>"

text \<open>The globals after one recording.\<close>

definition recorded :: state where
  "recorded = initial\<lparr>trace_dir := Some (ustr ''/tmp/t/main-0''), next_trace_id := 1\<rparr>"

text \<open>The globals once a browser session exists.\<close>

definition browsing :: state where
  "browsing = recorded\<lparr>driver := Some 0\<rparr>"

text \<open>A world in which every call succeeds and the server announces its address at once.\<close>

definition calm :: world where
  "calm = \<lparr>mkdtemp = ustr ''/tmp/t'',
           proc = (\<lambda>t argv. Exited 0 []),
           popen = (\<lambda>t argv. Some (LCons (ustr ''Appserver launched at http://127.0.0.1:3000'' @ [10]) LNil)),
           exits = (\<lambda>k. True),
           raises = (\<lambda>t a. None),
           script_result = (\<lambda>t scr. Returned PNone),
           polls = (\<lambda>t timeout. 0)\<rparr>"

text \<open>The tracer exits with status 1.\<close>

definition tracer_fails :: world where
  "tracer_fails = calm\<lparr>proc := (\<lambda>t argv. Exited 1 [])\<rparr>"

text \<open>Every script evaluation raises \<open>JavascriptException\<close>.\<close>

definition no_element_yet :: world where
  "no_element_yet = calm\<lparr>script_result := (\<lambda>t scr. Raised JavascriptException)\<rparr>"

text \<open>The first two calls are refused; every call is refused.\<close>

definition refuses_twice :: world where
  "refuses_twice = calm\<lparr>raises := (\<lambda>t a. if t < 2 then Some WebDriverException else None)\<rparr>"

definition refuses_always :: world where
  "refuses_always = calm\<lparr>raises := (\<lambda>t a. Some WebDriverException)\<rparr>"

text \<open>Servers that print a line, then an empty line, then the address; that announce an
  \<open>https\<close> address; that print one line and close their output.\<close>

definition prints_empty_line :: world where
  "prints_empty_line =
     calm\<lparr>popen := (\<lambda>t argv. Some (lapp [ustr ''starting'' @ [10], [10]]
                                     (LCons (ustr ''at http://127.0.0.1:3000'' @ [10]) LNil)))\<rparr>"

definition announces_https :: world where
  "announces_https =
     calm\<lparr>popen := (\<lambda>t argv. Some (LCons (ustr ''at https://127.0.0.1:3000'' @ [10]) LNil))\<rparr>"

definition closes_early :: world where
  "closes_early = calm\<lparr>popen := (\<lambda>t argv. Some (lapp [ustr ''starting'' @ [10]] LNil))\<rparr>"

text \<open>
  Two listings of the archive: one with the paths under the working directory, one with the
  path of \<open>message.h\<close> under the alias.
\<close>

definition listing :: pystr where
  "listing = ustr ''/tmp/t/pernosco-submit-test/out/main.c'' @ [10]
             @ ustr ''/tmp/t/pernosco-submit-test/out/message.h'' @ [10]"

definition alias_listing :: pystr where
  "alias_listing = ustr ''/tmp/t/alias/pernosco-submit-test/out/message.h'' @ [10]"

text \<open>
  A world in which the run passes: the note is empty until the text is typed (the call
  numbered 37) and holds it from then on, also after the restart; the archive lists the
  paths under the working directory.
\<close>

definition happy :: world where
  "happy = calm\<lparr>proc := (\<lambda>t argv. if hd argv = ustr ''unzip'' then Exited 0 listing else Exited 0 []),
                 script_result := (\<lambda>t scr. if scr = focus_script then Returned (PBool True)
                                    else if t \<le> 36 then Returned (PStr [])
                                    else Returned (PStr (ustr ''HelloKitty'')))\<rparr>"

text \<open>A world whose archive lists the path under the alias only.\<close>

definition alias_only :: world where
  "alias_only = calm\<lparr>proc := (\<lambda>t argv. Exited 0 alias_listing)\<rparr>"

text \<open>A world in which the browser cannot be started.\<close>

definition no_browser :: world where
  "no_browser = calm\<lparr>raises := (\<lambda>t a. if a = New_driver True then Some WebDriverException else None)\<rparr>"

text \<open>
  A working directory whose name holds \<open>PASS\<close>, the listing of the archive under it, and
  the world of the passing run with that listing.
\<close>

definition c_pass :: cfg where
  "c_pass = \<lparr>headless = True, no_pull = True, tmpdir = ustr ''/tmp/PASS''\<rparr>"

definition listing_pass :: pystr where
  "listing_pass = ustr ''/tmp/PASS/pernosco-submit-test/out/message.h'' @ [10]"

definition happy_pass :: world where
  "happy_pass = happy\<lparr>proc := (\<lambda>t argv. if hd argv = ustr ''unzip'' then Exited 0 listing_pass
                                          else Exited 0 [])\<rparr>"

text \<open>
  The world of the passing run, but \<open>docker ps -aq\<close> answers \<open>PASS\<close>; and a world whose
  server announces an address that holds \<open>PASS\<close> and refuses every navigation.
\<close>

definition containers_left :: world where
  "containers_left = happy\<lparr>proc := (\<lambda>t argv. if hd argv = ustr ''docker''
                                               then Exited 0 (ustr ''PASS'' @ [10])
                                               else Exited 0 [])\<rparr>"

definition unreachable :: world where
  "unreachable =
     calm\<lparr>popen := (\<lambda>t argv. Some (LCons (ustr ''Appserver launched at http://PASS:3000'' @ [10]) LNil)),
          raises := (\<lambda>t a. case a of Get u \<Rightarrow> Some WebDriverException | _ \<Rightarrow> None)\<rparr>"

section \<open>Properties\<close>

subsection \<open>Words and lines\<close>

lemma tokens_Nil_iff: "tokens cur s = [] \<longleftrightarrow> cur = [] \<and> list_all is_space s"
  by (induction s arbitrary: cur) auto

lemma split_ws_Nil_iff: "split_ws s = [] \<longleftrightarrow> blank s"
  by (simp add: split_ws_def tokens_Nil_iff blank_def)

subsection \<open>The tracer\<close>

text \<open>
  C10. \<open>record\<close> is atomic on error: it returns normally exactly when the tracer exits
  with status zero; when it raises, \<open>trace_dir\<close> and \<open>next_trace_id\<close> are what they
  were; when it returns, the name of the trace directory is made from the old counter and
  the counter has grown by one.
\<close>

theorem record_atomic:
  "(fst (record_rr w c s) = None \<longleftrightarrow>
      (\<exists>out. proc w (tick s) [ustr ''rr'', ustr ''record'', testdir c @ ustr ''/out/main'']
               = Exited 0 out))
   \<and> (fst (record_rr w c s) \<noteq> None \<longrightarrow>
        trace_dir (snd (record_rr w c s)) = trace_dir s
        \<and> next_trace_id (snd (record_rr w c s)) = next_trace_id s)
   \<and> (fst (record_rr w c s) = None \<longrightarrow>
        trace_dir (snd (record_rr w c s))
          = Some (tmpdir c @ ustr ''/main-'' @ str_int (next_trace_id s))
        \<and> next_trace_id (snd (record_rr w c s)) = next_trace_id s + 1)"
  by (auto simp: record_rr_def check_call_def emit_def answered_def Let_def
           split: proc_result.splits)

theorem record_atomic_witness:
  "fst (record_rr tracer_fails c0 recorded) \<noteq> None
   \<and> trace_dir (snd (record_rr tracer_fails c0 recorded)) = Some (ustr ''/tmp/t/main-0'')
   \<and> next_trace_id (snd (record_rr tracer_fails c0 recorded)) = 1
   \<and> fst (record_rr calm c0 recorded) = None
   \<and> next_trace_id (snd (record_rr calm c0 recorded)) = 2"
  using record_atomic [of tracer_fails c0 recorded] record_atomic [of calm c0 recorded]
  by (simp add: tracer_fails_def calm_def recorded_def initial_def)

subsection \<open>Polling a script\<close>

text \<open>
  C8. When the evaluation of the script raises \<open>JavascriptException\<close>, the predicate
  \<open>script_succeeds\<close> returns \<open>False\<close>; the wait around it goes on to its next poll as
  it does for any false value, and nothing is raised.
\<close>

theorem script_error_is_not_yet:
  "script_result w (tick s) scr = Raised JavascriptException \<Longrightarrow>
   fst (script_succeeds w scr expected (Some d) s) = Inr False
   \<and> poll_script w scr expected (Some d) (Suc n) s
       = poll_script w scr expected (Some d) n (snd (script_succeeds w scr expected (Some d) s))"
  by (subst poll_script.simps) (simp add: script_succeeds_def Let_def)

theorem script_error_is_not_yet_witness:
  "fst (script_succeeds no_element_yet value_script (PStr (ustr ''HelloKitty'')) (Some 0) browsing) = Inr False
   \<and> poll_script no_element_yet value_script (PStr (ustr ''HelloKitty'')) (Some 0) (Suc 0) browsing
       = poll_script no_element_yet value_script (PStr (ustr ''HelloKitty'')) (Some 0) 0
           (snd (script_succeeds no_element_yet value_script (PStr (ustr ''HelloKitty'')) (Some 0) browsing))"
  using script_error_is_not_yet [of no_element_yet browsing value_script "PStr (ustr ''HelloKitty'')" 0 0]
  by (simp add: no_element_yet_def)

subsection \<open>Opening the browser\<close>

lemma navigations_append [simp]: "navigations u (l @ m) = navigations u l + navigations u m"
  by (simp add: navigations_def)

lemma navigations_simps [simp]:
  "navigations u [] = 0"
  "navigations u (Act (Get u) r # l) = Suc (navigations u l)"
  "navigations u (Sleep_ms n # l) = navigations u l"
  "navigations u (Print_err t # l) = navigations u l"
  by (simp_all add: navigations_def)

lemma attempt_refused:
  assumes "driver s = Some d" "raises w (tick s) (Get u) = Some e" "is_WebDriverException e" "r < 100"
  shows "open_browser_loop w u r s =
           open_browser_loop w u (Suc r) (emit (Sleep_ms 50) (emit (Act (Get u) (Some e)) (answered s)))"
  using assms
  by (subst open_browser_loop.simps) (simp add: driver_act_def act_def sleep_ms_def Let_def)

lemma attempt_accepted:
  assumes "driver s = Some d" "raises w (tick s) (Get u) = None" "r < 100"
  shows "open_browser_loop w u r s = (None, emit (Act (Get u) None) (answered s))"
  using assms
  by (subst open_browser_loop.simps) (simp add: driver_act_def act_def Let_def)

lemma budget_spent:
  "open_browser_loop w u 100 s =
     (Some (CustomException (ustr ''Too many retries'')),
      emit (Print_err (ustr ''Too many retries loading '' @ str_opt u @ ustr '', bailing out'' @ [10])) s)"
  by (subst open_browser_loop.simps) (simp add: print_err_def Let_def)

lemma loop_succeeds:
  "driver s = Some d \<Longrightarrow> r + N < 100 \<Longrightarrow>
   (\<forall>i<N. \<exists>e. raises w (tick s + i) (Get u) = Some e \<and> is_WebDriverException e) \<Longrightarrow>
   raises w (tick s + N) (Get u) = None \<Longrightarrow>
   fst (open_browser_loop w u r s) = None
   \<and> navigations u (log (snd (open_browser_loop w u r s))) = navigations u (log s) + N + 1"
proof (induction N arbitrary: r s)
  case 0
  then show ?case
    by (simp add: attempt_accepted emit_def answered_def)
next
  case (Suc N)
  from Suc.prems(3) obtain e where e: "raises w (tick s) (Get u) = Some e" "is_WebDriverException e"
    by fastforce
  let ?s = "emit (Sleep_ms 50) (emit (Act (Get u) (Some e)) (answered s))"
  have step: "open_browser_loop w u r s = open_browser_loop w u (Suc r) ?s"
    using Suc.prems(1,2) e by (simp add: attempt_refused)
  have t: "tick ?s = Suc (tick s)" and d: "driver ?s = Some d"
    and l: "log ?s = log s @ [Act (Get u) (Some e), Sleep_ms 50]"
    using Suc.prems(1) by (simp_all add: emit_def answered_def)
  have "\<forall>i<N. \<exists>e. raises w (tick ?s + i) (Get u) = Some e \<and> is_WebDriverException e"
    using Suc.prems(3) t by (metis Suc_less_eq add_Suc_shift)
  moreover have "raises w (tick ?s + N) (Get u) = None"
    using Suc.prems(4) t by simp
  moreover have "Suc r + N < 100" using Suc.prems(2) by simp
  ultimately have "fst (open_browser_loop w u (Suc r) ?s) = None
     \<and> navigations u (log (snd (open_browser_loop w u (Suc r) ?s))) = navigations u (log ?s) + N + 1"
    using Suc.IH [OF d] by blast
  then show ?case by (simp add: step l)
qed

lemma loop_gives_up:
  "driver s = Some d \<Longrightarrow> r + k = 100 \<Longrightarrow>
   (\<forall>i<k. \<exists>e. raises w (tick s + i) (Get u) = Some e \<and> is_WebDriverException e) \<Longrightarrow>
   fst (open_browser_loop w u r s) = Some (CustomException (ustr ''Too many retries''))
   \<and> navigations u (log (snd (open_browser_loop w u r s))) = navigations u (log s) + k"
proof (induction k arbitrary: r s)
  case 0
  then show ?case by (simp add: budget_spent emit_def)
next
  case (Suc k)
  from Suc.prems(3) obtain e where e: "raises w (tick s) (Get u) = Some e" "is_WebDriverException e"
    by fastforce
  let ?s = "emit (Sleep_ms 50) (emit (Act (Get u) (Some e)) (answered s))"
  have step: "open_browser_loop w u r s = open_browser_loop w u (Suc r) ?s"
    using Suc.prems(1,2) e by (simp add: attempt_refused)
  have t: "tick ?s = Suc (tick s)" and d: "driver ?s = Some d"
    and l: "log ?s = log s @ [Act (Get u) (Some e), Sleep_ms 50]"
    using Suc.prems(1) by (simp_all add: emit_def answered_def)
  have "\<forall>i<k. \<exists>e. raises w (tick ?s + i) (Get u) = Some e \<and> is_WebDriverException e"
    using Suc.prems(3) t by (metis Suc_less_eq add_Suc_shift)
  moreover have "Suc r + k = 100" using Suc.prems(2) by simp
  ultimately have "fst (open_browser_loop w u (Suc r) ?s) = Some (CustomException (ustr ''Too many retries''))
     \<and> navigations u (log (snd (open_browser_loop w u (Suc r) ?s))) = navigations u (log ?s) + k"
    using Suc.IH [OF d] by blast
  then show ?case by (simp add: step l)
qed

text \<open>
  C5. With a browser session at hand: when the first \<open>N\<close> navigation attempts, \<open>N < 100\<close>,
  raise a \<open>WebDriverException\<close> and the next one does not, \<open>open_browser\<close> returns
  after \<open>N + 1\<close> attempts; when the first hundred attempts all raise one, it raises
  \<open>CustomException("Too many retries")\<close> after exactly one hundred attempts. The loop is a
  total function, so it never runs for ever.
\<close>

theorem navigation_retry_bound:
  "driver s = Some d \<Longrightarrow>
   (N < 100 \<and> (\<forall>i<N. \<exists>e. raises w (tick s + i) (Get u) = Some e \<and> is_WebDriverException e)
      \<and> raises w (tick s + N) (Get u) = None
    \<longrightarrow> fst (open_browser w u s) = None
        \<and> navigations u (log (snd (open_browser w u s))) = navigations u (log s) + N + 1)
   \<and> ((\<forall>i<100. \<exists>e. raises w (tick s + i) (Get u) = Some e \<and> is_WebDriverException e)
    \<longrightarrow> fst (open_browser w u s) = Some (CustomException (ustr ''Too many retries''))
        \<and> navigations u (log (snd (open_browser w u s))) = navigations u (log s) + 100)"
  unfolding open_browser_def
  using loop_succeeds [of s d 0 N w u] loop_gives_up [of s d 0 100 w u]
  by simp

theorem navigation_retry_bound_witness:
  "fst (open_browser refuses_twice (Some (ustr ''http://127.0.0.1:3000'')) browsing) = None
   \<and> navigations (Some (ustr ''http://127.0.0.1:3000''))
         (log (snd (open_browser refuses_twice (Some (ustr ''http://127.0.0.1:3000'')) browsing))) = 3
   \<and> fst (open_browser refuses_always (Some (ustr ''http://127.0.0.1:3000'')) browsing)
       = Some (CustomException (ustr ''Too many retries''))
   \<and> navigations (Some (ustr ''http://127.0.0.1:3000''))
         (log (snd (open_browser refuses_always (Some (ustr ''http://127.0.0.1:3000'')) browsing))) = 100"
  using navigation_retry_bound [of browsing 0 2 refuses_twice "Some (ustr ''http://127.0.0.1:3000'')"]
        navigation_retry_bound [of browsing 0 0 refuses_always "Some (ustr ''http://127.0.0.1:3000'')"]
  by (simp add: refuses_twice_def refuses_always_def calm_def browsing_def recorded_def initial_def)

subsection \<open>Starting the server\<close>

lemma scan_stdout_LNil: "scan_stdout LNil s = Some (None, s)"
  by (subst scan_stdout.simps) simp

lemma scan_stdout_LCons:
  "scan_stdout (LCons line rest) s =
     (let s' = snd (print_out line s) in
      case split_ws line of
        [] \<Rightarrow> Some (Some IndexError, s')
      | t # ts \<Rightarrow>
          (let last_word = last (t # ts) in
           if startswith last_word (ustr ''http:'') then Some (None, s'\<lparr>url := Some last_word\<rparr>)
           else scan_stdout rest s'))"
  by (subst scan_stdout.simps) simp

lemma scan_blank: "blank line \<Longrightarrow> scan_stdout (LCons line rest) s = Some (Some IndexError, emit (echo line) s)"
  by (simp add: scan_stdout_LCons split_ws_Nil_iff [symmetric] print_out_def echo_def)

lemma scan_url:
  "url_line line \<Longrightarrow>
   scan_stdout (LCons line rest) s = Some (None, (emit (echo line) s)\<lparr>url := Some (last (split_ws line))\<rparr>)"
  by (auto simp: scan_stdout_LCons url_line_def print_out_def echo_def Let_def split: list.splits)

lemma scan_other:
  "\<not> blank line \<Longrightarrow> \<not> url_line line \<Longrightarrow>
   scan_stdout (LCons line rest) s = scan_stdout rest (emit (echo line) s)"
  by (auto simp: scan_stdout_LCons url_line_def split_ws_Nil_iff [symmetric] print_out_def echo_def Let_def
           split: list.splits)

lemma scan_skips:
  "list_all (\<lambda>l. \<not> blank l \<and> \<not> url_line l) pre \<Longrightarrow>
   scan_stdout (lapp pre rest) s = scan_stdout rest (s\<lparr>log := log s @ map echo pre\<rparr>)"
proof (induction pre arbitrary: s)
  case Nil
  then show ?case by simp
next
  case (Cons l pre)
  then show ?case by (simp add: scan_other emit_def)
qed

lemma start_server_scan:
  "list_all (\<lambda>l. \<not> blank l \<and> \<not> url_line l) pre \<Longrightarrow>
   trace_dir s = Some td \<Longrightarrow>
   popen w (tick s) (server_argv c td) = Some (lapp pre rest) \<Longrightarrow>
   start_server w c s =
     scan_stdout rest
       (s\<lparr>tick := Suc (tick s), server := Some (tick s), url := None,
          log := log s @ Popen (tick s) (server_argv c td) # map echo pre\<rparr>)"
  by (simp add: start_server_def scan_skips emit_def answered_def)

lemma starting_line: "\<not> blank (ustr ''starting'' @ [10]) \<and> \<not> url_line (ustr ''starting'' @ [10])"
  by (simp add: blank_def url_line_def split_ws_def ustr_def is_space_def startswith_def)

lemma calm_line: "url_line (ustr ''Appserver launched at http://127.0.0.1:3000'' @ [10])"
  by (simp add: url_line_def split_ws_def ustr_def is_space_def startswith_def)

lemma calm_last:
  "last (split_ws (ustr ''Appserver launched at http://127.0.0.1:3000'' @ [10]))
     = ustr ''http://127.0.0.1:3000''"
  by (simp add: split_ws_def ustr_def is_space_def)

lemma at_last: "last (split_ws (ustr ''at http://127.0.0.1:3000'' @ [10])) = ustr ''http://127.0.0.1:3000''"
  by (simp add: split_ws_def ustr_def is_space_def)

lemma https_words:
  "split_ws (ustr ''at https://127.0.0.1:3000'' @ [10]) = [ustr ''at'', ustr ''https://127.0.0.1:3000'']"
  by (simp add: split_ws_def ustr_def is_space_def)

lemma https_line:
  "\<not> blank (ustr ''at https://127.0.0.1:3000'' @ [10])
   \<and> \<not> url_line (ustr ''at https://127.0.0.1:3000'' @ [10])"
  by (simp add: url_line_def https_words split_ws_Nil_iff [symmetric]) (simp add: ustr_def startswith_def)

lemma run_closes_early:
  "start_server closes_early c0 recorded =
     Some (None, recorded\<lparr>server := Some 0, url := None, tick := Suc 0,
             log := [Popen 0 (server_argv c0 (ustr ''/tmp/t/main-0'')),
                     echo (ustr ''starting'' @ [10])]\<rparr>)"
  using start_server_scan [of "[ustr ''starting'' @ [10]]" recorded "ustr ''/tmp/t/main-0''"
          closes_early c0 LNil] starting_line
  by (simp add: closes_early_def calm_def recorded_def initial_def scan_stdout_LNil)

lemma run_announces_https:
  "start_server announces_https c0 recorded =
     Some (None, recorded\<lparr>server := Some 0, url := None, tick := Suc 0,
             log := [Popen 0 (server_argv c0 (ustr ''/tmp/t/main-0'')),
                     echo (ustr ''at https://127.0.0.1:3000'' @ [10])]\<rparr>)"
  using start_server_scan [of "[ustr ''at https://127.0.0.1:3000'' @ [10]]" recorded
          "ustr ''/tmp/t/main-0''" announces_https c0 LNil] https_line
  by (simp add: announces_https_def calm_def recorded_def initial_def scan_stdout_LNil)

lemma run_prints_empty_line:
  "start_server prints_empty_line c0 recorded =
     Some (Some IndexError,
           recorded\<lparr>server := Some 0, url := None, tick := Suc 0,
             log := [Popen 0 (server_argv c0 (ustr ''/tmp/t/main-0'')),
                     echo (ustr ''starting'' @ [10]), echo [10]]\<rparr>)"
  using start_server_scan [of "[ustr ''starting'' @ [10]]" recorded "ustr ''/tmp/t/main-0''"
          prints_empty_line c0
          "LCons [10] (LCons (ustr ''at http://127.0.0.1:3000'' @ [10]) LNil)"] starting_line
  by (simp add: prints_empty_line_def calm_def recorded_def initial_def scan_blank blank_def
        is_space_def emit_def)

text \<open>
  C9. The scan of the server's output is not total over the lines: when a line of white
  space only (it splits into no word) comes before any line ending in an address, taking
  its last word raises \<open>IndexError\<close>; the line is echoed, not skipped, no address is
  set, and the lines after it are not read.
\<close>

theorem blank_line_raises:
  "list_all (\<lambda>l. \<not> blank l \<and> \<not> url_line l) pre \<Longrightarrow> blank line \<Longrightarrow>
   trace_dir s = Some td \<Longrightarrow>
   popen w (tick s) (server_argv c td) = Some (lapp pre (LCons line rest)) \<Longrightarrow>
   start_server w c s =
     Some (Some IndexError,
           s\<lparr>server := Some (tick s), url := None, tick := Suc (tick s),
             log := log s @ [Popen (tick s) (server_argv c td)] @ map echo (pre @ [line])\<rparr>)"
  by (simp add: start_server_scan scan_blank emit_def)

theorem blank_line_raises_witness:
  "start_server prints_empty_line c0 recorded =
     Some (Some IndexError,
           recorded\<lparr>server := Some 0, url := None, tick := Suc 0,
             log := [Popen 0 (server_argv c0 (ustr ''/tmp/t/main-0'')),
                     echo (ustr ''starting'' @ [10]), echo [10]]\<rparr>)"
  using blank_line_raises [of "[ustr ''starting'' @ [10]]" "[10]" recorded "ustr ''/tmp/t/main-0''"
          prints_empty_line c0 "LCons (ustr ''at http://127.0.0.1:3000'' @ [10]) LNil"]
        starting_line
  by (simp add: prints_empty_line_def calm_def recorded_def initial_def blank_def is_space_def)

text \<open>
  C4, amended. When the lines before the first line whose last word begins with \<open>http:\<close>
  all hold a word, \<open>start_server\<close> returns with \<open>url\<close> set to exactly that last word,
  having echoed every line up to and including that one.
\<close>

theorem url_discovered:
  "list_all (\<lambda>l. \<not> blank l \<and> \<not> url_line l) pre \<Longrightarrow> url_line line \<Longrightarrow>
   trace_dir s = Some td \<Longrightarrow>
   popen w (tick s) (server_argv c td) = Some (lapp pre (LCons line rest)) \<Longrightarrow>
   start_server w c s =
     Some (None,
           s\<lparr>server := Some (tick s), url := Some (last (split_ws line)), tick := Suc (tick s),
             log := log s @ [Popen (tick s) (server_argv c td)] @ map echo (pre @ [line])\<rparr>)"
  by (simp add: start_server_scan scan_url emit_def)

theorem url_discovered_witness:
  "start_server calm c0 recorded =
     Some (None,
           recorded\<lparr>server := Some 0, url := Some (ustr ''http://127.0.0.1:3000''), tick := Suc 0,
             log := [Popen 0 (server_argv c0 (ustr ''/tmp/t/main-0'')),
                     echo (ustr ''Appserver launched at http://127.0.0.1:3000'' @ [10])]\<rparr>)"
  using url_discovered [of "[]" "ustr ''Appserver launched at http://127.0.0.1:3000'' @ [10]" recorded
          "ustr ''/tmp/t/main-0''" calm c0 LNil]
        calm_line calm_last
  by (simp add: calm_def recorded_def initial_def)

text \<open>
  C4 as stated fails twice: a last word that begins with \<open>http\<close> but not with
  \<open>http:\<close> is passed over, and an empty line before the address ends the scan with
  \<open>IndexError\<close>. In both runs no address is set.
\<close>

theorem url_discovered_counterexample:
  "startswith (last (split_ws (ustr ''at https://127.0.0.1:3000'' @ [10]))) (ustr ''http'')
   \<and> map_option fst (start_server announces_https c0 recorded) = Some None
   \<and> map_option (url \<circ> snd) (start_server announces_https c0 recorded) = Some None
   \<and> startswith (last (split_ws (ustr ''at http://127.0.0.1:3000'' @ [10]))) (ustr ''http'')
   \<and> map_option fst (start_server prints_empty_line c0 recorded) = Some (Some IndexError)
   \<and> map_option (url \<circ> snd) (start_server prints_empty_line c0 recorded) = Some None"
proof -
  have a: "startswith (last (split_ws (ustr ''at https://127.0.0.1:3000'' @ [10]))) (ustr ''http'')"
    by (simp add: https_words) (simp add: ustr_def startswith_def)
  have c: "startswith (last (split_ws (ustr ''at http://127.0.0.1:3000'' @ [10]))) (ustr ''http'')"
    by (simp add: at_last) (simp add: ustr_def startswith_def)
  show ?thesis by (simp add: a c run_announces_https run_prints_empty_line)
qed

text \<open>
  C3, amended. When the output closes after lines that all hold a word and none of which
  ends in a word beginning with \<open>http:\<close>, \<open>start_server\<close> returns normally with
  \<open>url\<close> left at \<open>None\<close>, every line echoed; nothing is raised at this point.
\<close>

theorem closed_without_url:
  "list_all (\<lambda>l. \<not> blank l \<and> \<not> url_line l) pre \<Longrightarrow>
   trace_dir s = Some td \<Longrightarrow>
   popen w (tick s) (server_argv c td) = Some (lapp pre LNil) \<Longrightarrow>
   start_server w c s =
     Some (None,
           s\<lparr>server := Some (tick s), url := None, tick := Suc (tick s),
             log := log s @ [Popen (tick s) (server_argv c td)] @ map echo pre\<rparr>)"
  by (simp add: start_server_scan scan_stdout_LNil)

theorem closed_without_url_witness:
  "start_server closes_early c0 recorded =
     Some (None, recorded\<lparr>server := Some 0, url := None, tick := Suc 0,
             log := [Popen 0 (server_argv c0 (ustr ''/tmp/t/main-0'')),
                     echo (ustr ''starting'' @ [10])]\<rparr>)"
  using closed_without_url [of "[ustr ''starting'' @ [10]]" recorded "ustr ''/tmp/t/main-0''" closes_early c0]
        starting_line
  by (simp add: closes_early_def calm_def recorded_def initial_def)

text \<open>
  C3 as stated fails: a server that prints one line without an address and closes its
  output makes \<open>start_server\<close> return without an exception and without an address.
\<close>

theorem closed_without_url_counterexample:
  "\<not> url_line (ustr ''starting'' @ [10])
   \<and> map_option fst (start_server closes_early c0 recorded) = Some None
   \<and> map_option (url \<circ> snd) (start_server closes_early c0 recorded) = Some None"
  using starting_line by (simp add: run_closes_early)

subsection \<open>What the steps add to the events\<close>

lemma lifecycle_simps [simp]:
  "lifecycle (Popen k argv)" "lifecycle (Act (Kill k) None)" "lifecycle (Wait_exit k)"
  "\<not> lifecycle (Print_out t)" "\<not> lifecycle (Print_err t)" "\<not> lifecycle (Exec argv cwd env)"
  "\<not> lifecycle (Script scr so)" "\<not> lifecycle (Sleep_ms n)"
  "\<not> lifecycle (Act a (Some e))"
  "(\<And>k. a \<noteq> Kill k) \<Longrightarrow> \<not> lifecycle (Act a r)"
  by (auto simp: lifecycle_def split: action.splits option.splits)

lemma harmless_simps [simp]:
  "harmless (Print_out t)" "harmless (Exec argv cwd env)"
  "harmless (Script scr so)" "harmless (Sleep_ms n)"
  "harmless (Act a (Some e))"
  "(\<And>k. a \<noteq> Kill k) \<Longrightarrow> harmless (Act a r)"
  "\<not> harmless pass_marker" "\<not> lifecycle pass_marker"
  "harmless (Print_err t) \<longleftrightarrow> t \<noteq> ([10] @ ustr ''PASS'') @ [10]"
  by (auto simp: harmless_def pass_marker_def)

lemma quiet_refl [simp]: "quiet s s"
  by (simp add: quiet_def)

lemma quiet_trans: "quiet a b \<Longrightarrow> quiet b c \<Longrightarrow> quiet a c"
  by (auto simp: quiet_def)

lemma tame_refl [simp]: "tame s s"
  by (simp add: tame_def)

lemma tame_trans: "tame a b \<Longrightarrow> tame b c \<Longrightarrow> tame a c"
  by (auto simp: tame_def)

lemma quiet_tame: "quiet a b \<Longrightarrow> tame a b"
  by (auto simp: quiet_def tame_def)

lemma quiet_emit [simp]: "harmless e \<Longrightarrow> quiet s (emit e s)"
  by (simp add: quiet_def emit_def)

lemma quiet_answered_emit [simp]: "harmless e \<Longrightarrow> quiet s (emit e (answered s))"
  by (simp add: quiet_def emit_def answered_def)

lemma quiet_print_out [simp]: "quiet s (snd (print_out t s))"
  by (simp add: print_out_def)

lemma quiet_print_err: "t \<noteq> 10 # ustr ''PASS'' \<Longrightarrow> quiet s (snd (print_err t s))"
  by (simp add: print_err_def)

lemma quiet_sleep [simp]: "quiet s (snd (sleep_ms n s))"
  by (simp add: sleep_ms_def)

lemma quiet_check_call [simp]: "quiet s (snd (check_call w argv cwd env s))"
  by (simp add: check_call_def Let_def split: proc_result.splits)

lemma quiet_check_output [simp]: "quiet s (snd (check_output w argv s))"
  by (simp add: check_output_def Let_def split: proc_result.splits)

lemma quiet_act [simp]: "(\<And>k. a \<noteq> Kill k) \<Longrightarrow> quiet s (snd (act w a s))"
  by (simp add: act_def Let_def)

lemma quiet_driver_act [simp]: "(\<And>k. a \<noteq> Kill k) \<Longrightarrow> quiet s (snd (driver_act w a s))"
  by (simp add: driver_act_def split: option.splits)

lemma quiet_focus_search [simp]: "quiet s (snd (focus_search w s))"
  by (simp add: focus_search_def)

lemma quiet_until_text [simp]: "quiet s (snd (until_text w sel t s))"
  by (simp add: until_text_def)

lemma quiet_build [simp]: "quiet s (snd (build w c s))"
  by (simp add: build_def)

lemma quiet_create_driver [simp]: "quiet s (snd (create_driver w c s))"
proof -
  have "quiet s (snd (act w (New_driver (headless c)) s))" by simp
  then show ?thesis
    by (auto simp: create_driver_def quiet_def split: prod.splits option.splits)
qed

lemma tame_record [simp]: "tame s (snd (record_rr w c s))"
proof -
  have "tame s (snd (check_call w [ustr ''rr'', ustr ''record'', testdir c @ ustr ''/out/main''] None True s))"
    by (simp add: quiet_tame)
  then show ?thesis
    by (auto simp: record_rr_def tame_def split: prod.splits option.splits)
qed

lemma too_many_is_not_pass:
  "ustr ''Too many retries loading '' @ t \<noteq> 10 # ustr ''PASS''"
  by (simp add: ustr_def)

lemma quiet_open_browser_loop: "quiet s (snd (open_browser_loop w u r s))"
proof (induction w u r s rule: open_browser_loop.induct)
  case (1 w u retries s)
  show ?case
  proof (cases "retries + 1 > 100")
    case True
    then show ?thesis
      by (subst open_browser_loop.simps) (simp add: quiet_print_err too_many_is_not_pass)
  next
    case False
    obtain r s1 where a: "driver_act w (Get u) s = (r, s1)" by (cases "driver_act w (Get u) s")
    have q1: "quiet s s1" using quiet_driver_act [of "Get u" s w] a by simp
    show ?thesis
    proof (cases r)
      case None
      then show ?thesis using False a q1
        by (subst open_browser_loop.simps) simp
    next
      case (Some e)
      show ?thesis
      proof (cases "is_WebDriverException e")
        case True
        have "quiet (snd (sleep_ms 50 s1)) (snd (open_browser_loop w u (retries + 1) (snd (sleep_ms 50 s1))))"
          using 1 [OF refl _ a [symmetric] Some True] False by simp
        then have "quiet s (snd (open_browser_loop w u (retries + 1) (snd (sleep_ms 50 s1))))"
          using q1 quiet_sleep [of s1 50] quiet_trans by blast
        then show ?thesis using False a Some True
          by (subst open_browser_loop.simps) simp
      next
        case False
        then show ?thesis using \<open>\<not> retries + 1 > 100\<close> a Some q1
          by (subst open_browser_loop.simps) simp
      qed
    qed
  qed
qed

lemma quiet_open_browser [simp]: "quiet s (snd (open_browser w u s))"
  by (simp add: open_browser_def quiet_open_browser_loop)

lemma quiet_script_succeeds [simp]: "quiet s (snd (script_succeeds w scr ex d s))"
  by (simp add: script_succeeds_def Let_def split: option.splits script_outcome.splits)

lemma quiet_poll_script: "quiet s (snd (poll_script w scr ex d n s))"
proof (induction n arbitrary: s)
  case 0
  obtain r s1 where a: "script_succeeds w scr ex d s = (r, s1)" by (cases "script_succeeds w scr ex d s")
  have q1: "quiet s s1" using quiet_script_succeeds [of s w scr ex d] a by simp
  show ?case using a q1
    by (subst poll_script.simps) (auto split: sum.splits)
next
  case (Suc n)
  obtain r s1 where a: "script_succeeds w scr ex d s = (r, s1)" by (cases "script_succeeds w scr ex d s")
  have q1: "quiet s s1" using quiet_script_succeeds [of s w scr ex d] a by simp
  have q2: "quiet s (snd (poll_script w scr ex d n s1))"
    using q1 Suc.IH [of s1] quiet_trans by blast
  show ?case using a q1 q2
    by (subst poll_script.simps) (auto split: sum.splits)
qed

lemma quiet_until_script [simp]: "quiet s (snd (until_script w scr ex s))"
  by (simp add: until_script_def quiet_poll_script)

lemma docker_is_not_pass: "ustr ''Docker containers still running:'' @ t \<noteq> 10 # ustr ''PASS''"
  by (simp add: ustr_def)

lemma quiet_check_containers [simp]: "quiet s (snd (check_containers w s))"
proof -
  obtain r s1 where a: "check_output w [ustr ''docker'', ustr ''ps'', ustr ''-aq''] s = (r, s1)"
    by (cases "check_output w [ustr ''docker'', ustr ''ps'', ustr ''-aq''] s")
  have q1: "quiet s s1" using quiet_check_output [of s w] a by (metis snd_conv)
  have q2: "quiet s1 (snd (print_err (ustr ''Docker containers still running:'' @ [10] @ strip out) s1))" for out
    by (simp add: quiet_print_err docker_is_not_pass)
  show ?thesis using a q1 q2 quiet_trans
    by (auto simp: check_containers_def Let_def split: sum.splits)
qed

lemma quiet_verify_export [simp]: "quiet s (snd (verify_export w c s))"
proof -
  let ?argv = "[ustr ''unzip'', ustr ''-Z1'', str_opt (trace_dir s) @ ustr ''/files.user/sources.zip'']"
  obtain r s1 where a: "check_output w ?argv s = (r, s1)" by (cases "check_output w ?argv s")
  have q1: "quiet s s1" using quiet_check_output [of s w ?argv] a by simp
  show ?thesis using a q1
    by (auto simp: verify_export_def Let_def split: sum.splits)
qed

subsection \<open>Running a list of steps\<close>

lemma step_rel_total: "(\<And>s. R s (snd (f s))) \<Longrightarrow> step_rel R (total f)"
  by (auto simp: step_rel_def total_def) (metis snd_conv)

lemma run_steps_rel:
  assumes refl: "\<And>s. R s s" and trans: "\<And>a b c. R a b \<Longrightarrow> R b c \<Longrightarrow> R a c"
  shows "list_all (step_rel R) fs \<Longrightarrow> run_steps fs s = Some (r, s') \<Longrightarrow> R s s'"
proof (induction fs arbitrary: s)
  case Nil
  then show ?case using refl by simp
next
  case (Cons f fs)
  from Cons.prems(2) obtain r1 s1 where f: "f s = Some (r1, s1)"
    by (cases "f s") auto
  have R1: "R s s1" using Cons.prems(1) f by (simp add: step_rel_def)
  show ?case
  proof (cases r1)
    case None
    then have "run_steps fs s1 = Some (r, s')" using Cons.prems(2) f by simp
    then have "R s1 s'" using Cons.IH Cons.prems(1) by simp
    then show ?thesis using R1 trans by blast
  next
    case (Some e)
    then have "s' = s1" using Cons.prems(2) f by simp
    then show ?thesis using R1 by simp
  qed
qed

lemma run_steps_append:
  "run_steps (xs @ ys) s =
     (case run_steps xs s of
        None \<Rightarrow> None
      | Some (Some e, s') \<Rightarrow> Some (Some e, s')
      | Some (None, s') \<Rightarrow> run_steps ys s')"
  by (induction xs arbitrary: s) (auto split: option.splits)

lemma scan_stdout_result:
  assumes "scan_stdout ls s = Some y"
  shows "(fst y = None \<or> fst y = Some IndexError)
         \<and> tick (snd y) = tick s \<and> server (snd y) = server s \<and> trace_dir (snd y) = trace_dir s
         \<and> (\<exists>lines. log (snd y) = log s @ map echo lines)"
  using assms
proof (induction rule: scan_stdout.raw_induct [rotated 1, consumes 1])
  case (1 scan ls s y)
  show ?case
  proof (cases ls)
    case LNil
    then have "y = (None, s)" using 1(2) by simp
    then have "log (snd y) = log s @ map echo []" and "fst y = None" and "snd y = s" by simp_all
    then show ?thesis by metis
  next
    case (LCons line rest)
    let ?s1 = "emit (echo line) s"
    have s1: "snd (print_out line s) = ?s1" by (simp add: print_out_def echo_def)
    have l1: "log ?s1 = log s @ map echo [line]" by (simp add: emit_def)
    show ?thesis
    proof (cases "split_ws line")
      case Nil
      then have y: "y = (Some IndexError, ?s1)" using 1(2) LCons s1 by simp
      have "log (snd y) = log s @ map echo [line]" using y l1 by simp
      moreover have "fst y = Some IndexError \<and> tick (snd y) = tick s \<and> server (snd y) = server s
                     \<and> trace_dir (snd y) = trace_dir s"
        using y by (simp add: emit_def)
      ultimately show ?thesis by blast
    next
      case (Cons t ts)
      show ?thesis
      proof (cases "startswith (last (t # ts)) (ustr ''http:'')")
        case True
        then have y: "y = (None, ?s1\<lparr>url := Some (last (t # ts))\<rparr>)"
          using 1(2) LCons s1 Cons by (simp add: Let_def)
        have "log (snd y) = log s @ map echo [line]" using y l1 by simp
        moreover have "fst y = None \<and> tick (snd y) = tick s \<and> server (snd y) = server s
                       \<and> trace_dir (snd y) = trace_dir s"
          using y by (simp add: emit_def)
        ultimately show ?thesis by blast
      next
        case False
        then have "scan rest ?s1 = Some y" using 1(2) LCons s1 Cons by (simp add: Let_def)
        from 1(1) [OF this] obtain lines where
          "(fst y = None \<or> fst y = Some IndexError)
           \<and> tick (snd y) = tick ?s1 \<and> server (snd y) = server ?s1 \<and> trace_dir (snd y) = trace_dir ?s1"
          and "log (snd y) = log ?s1 @ map echo lines" by blast
        then have "(fst y = None \<or> fst y = Some IndexError)
           \<and> tick (snd y) = tick s \<and> server (snd y) = server s \<and> trace_dir (snd y) = trace_dir s"
          and "log (snd y) = log s @ map echo (line # lines)" by (simp_all add: emit_def)
        then show ?thesis by blast
      qed
    qed
  qed
qed

lemma echo_harmless [simp]: "harmless (echo l)"
  by (simp add: echo_def)

lemma echo_not_lifecycle [simp]: "\<not> lifecycle (echo l)"
  by (simp add: echo_def)

text \<open>What a call of \<open>start_server\<close> can have done.\<close>

lemma start_server_result:
  assumes "start_server w c s = Some (r, s')"
  shows "(r \<noteq> None \<and> tick s \<le> tick s' \<and> server s' = server s \<and> trace_dir s' = trace_dir s \<and> log s' = log s)
       \<or> ((r = None \<or> r = Some IndexError) \<and> tick s' = Suc (tick s) \<and> server s' = Some (tick s)
          \<and> trace_dir s' = trace_dir s
          \<and> (\<exists>td lines. trace_dir s = Some td
                \<and> log s' = log s @ Popen (tick s) (server_argv c td) # map echo lines))"
proof (cases "trace_dir s")
  case None
  then show ?thesis using assms by (auto simp: start_server_def)
next
  case (Some td)
  show ?thesis
  proof (cases "popen w (tick s) (server_argv c td)")
    case None
    then show ?thesis using assms Some by (auto simp: start_server_def answered_def)
  next
    case (Some out)
    let ?s1 = "(emit (Popen (tick s) (server_argv c td)) (answered s))\<lparr>server := Some (tick s), url := None\<rparr>"
    have "scan_stdout out ?s1 = Some (r, s')"
      using assms \<open>trace_dir s = Some td\<close> Some by (simp add: start_server_def)
    from scan_stdout_result [OF this] obtain lines where
      "(r = None \<or> r = Some IndexError) \<and> tick s' = tick ?s1 \<and> server s' = server ?s1
        \<and> trace_dir s' = trace_dir ?s1" and "log s' = log ?s1 @ map echo lines"
      by auto
    then show ?thesis using \<open>trace_dir s = Some td\<close>
      by (auto simp: emit_def answered_def)
  qed
qed

subsection \<open>The life of the servers\<close>

lemma hoare_append: "hoare P xs M E \<Longrightarrow> hoare M ys Q E \<Longrightarrow> hoare P (xs @ ys) Q E"
  unfolding hoare_def run_steps_append
  by (auto split: option.splits prod.splits)

lemma hoare_single:
  "(\<And>s r s'. P s \<Longrightarrow> f s = Some (r, s') \<Longrightarrow> (if r = None then Q s' else E s')) \<Longrightarrow> hoare P [f] Q E"
  unfolding hoare_def by (auto split: option.splits prod.splits)

lemma hoare_rel:
  assumes "\<And>s. R s s" "\<And>a b c. R a b \<Longrightarrow> R b c \<Longrightarrow> R a c"
    and "list_all (step_rel R) fs"
    and "\<And>s s'. P s \<Longrightarrow> R s s' \<Longrightarrow> P s'"
    and "\<And>s. P s \<Longrightarrow> E s"
  shows "hoare P fs P E"
proof -
  have R: "R s s'" if "run_steps fs s = Some (r, s')" for s r s'
    using run_steps_rel [where R = R, OF assms(1) assms(2) assms(3) that] .
  show ?thesis
    unfolding hoare_def using R assms(4,5) by auto
qed

lemma filter_harmless: "list_all harmless l \<Longrightarrow> filter lifecycle l = []"
  by (induction l) (auto simp: harmless_def)

lemma at_stage_quiet:
  assumes "at_stage c n s" "quiet s s'"
  shows "at_stage c n s'"
proof -
  from assms(1) obtain k1 k2 td where a: "k1 < k2"
      "filter lifecycle (log s) = take n (full k1 k2 (server_argv c td))"
      "1 \<le> n \<longrightarrow> trace_dir s = Some td \<and> k1 < tick s"
      "n = 1 \<or> n = 2 \<longrightarrow> server s = Some k1"
      "4 \<le> n \<longrightarrow> server s = Some k2 \<and> k2 < tick s"
    unfolding at_stage_def by blast
  from assms(2) obtain l where q: "tick s \<le> tick s'" "server s' = server s"
      "trace_dir s' = trace_dir s" "log s' = log s @ l" "list_all harmless l"
    unfolding quiet_def by blast
  have "filter lifecycle (log s') = take n (full k1 k2 (server_argv c td))"
    using a(2) q(4,5) by (simp add: filter_harmless)
  moreover have "1 \<le> n \<longrightarrow> trace_dir s' = Some td \<and> k1 < tick s'" using a(3) q(1,3) by auto
  moreover have "n = 1 \<or> n = 2 \<longrightarrow> server s' = Some k1" using a(4) q(2) by auto
  moreover have "4 \<le> n \<longrightarrow> server s' = Some k2 \<and> k2 < tick s'" using a(5) q(1,2) by auto
  ultimately show ?thesis unfolding at_stage_def using a(1) by blast
qed

lemma at_stage_tame: "at_stage c 0 s \<Longrightarrow> tame s s' \<Longrightarrow> at_stage c 0 s'"
  unfolding at_stage_def tame_def
  by (auto simp: filter_harmless)

lemma at_stage_reached: "n \<le> 6 \<Longrightarrow> at_stage c n s \<Longrightarrow> reached c s"
  by (auto simp: reached_def)


lemma at_stageI:
  "k1 < k2 \<Longrightarrow> filter lifecycle (log s) = take n (full k1 k2 (server_argv c td)) \<Longrightarrow>
   (1 \<le> n \<Longrightarrow> trace_dir s = Some td \<and> k1 < tick s) \<Longrightarrow>
   (n = 1 \<or> n = 2 \<Longrightarrow> server s = Some k1) \<Longrightarrow>
   (4 \<le> n \<Longrightarrow> server s = Some k2 \<and> k2 < tick s) \<Longrightarrow> at_stage c n s"
  unfolding at_stage_def by blast

lemma filter_echoes [simp]: "filter lifecycle (map echo lines) = []"
  by (induction lines) simp_all

lemma start_server_cases:
  assumes "start_server w c s = Some (r, s')"
  obtains (failed) "r \<noteq> None" "tick s \<le> tick s'" "server s' = server s"
      "trace_dir s' = trace_dir s" "log s' = log s"
  | (started) td lines where "tick s' = Suc (tick s)" "server s' = Some (tick s)"
      "trace_dir s' = trace_dir s" "trace_dir s = Some td"
      "log s' = log s @ Popen (tick s) (server_argv c td) # map echo lines"
  using start_server_result [OF assms] by blast

lemma start_from_0:
  assumes "at_stage c 0 s" "start_server w c s = Some (r, s')"
  shows "if r = None then at_stage c 1 s' else reached c s'"
proof -
  from assms(1) have lc: "filter lifecycle (log s) = []" by (auto simp: at_stage_def)
  from assms(2) show ?thesis
  proof (cases rule: start_server_cases)
    case failed
    then have "at_stage c 0 s'" using lc by (intro at_stageI [of 0 1 _ _ _ "[]"]) simp_all
    then show ?thesis using failed(1) at_stage_reached [of 0 c s'] by auto
  next
    case (started td lines)
    have "at_stage c 1 s'"
      using started lc by (intro at_stageI [of "tick s" "Suc (tick s)" _ _ _ td]) (simp_all add: full_def)
    then show ?thesis using at_stage_reached [of 1 c s'] by auto
  qed
qed

lemma start_from_3:
  assumes "at_stage c 3 s" "start_server w c s = Some (r, s')"
  shows "if r = None then at_stage c 4 s' else reached c s'"
proof -
  from assms(1) obtain k1 k2 td where st: "k1 < k2"
      "filter lifecycle (log s) = take 3 (full k1 k2 (server_argv c td))"
      "trace_dir s = Some td" "k1 < tick s"
    by (auto simp: at_stage_def)
  from assms(2) show ?thesis
  proof (cases rule: start_server_cases)
    case failed
    have "at_stage c 3 s'"
      using failed st by (intro at_stageI [of k1 k2 _ _ _ td]) simp_all
    then show ?thesis using failed(1) at_stage_reached [of 3 c s'] by auto
  next
    case (started td' lines)
    have "td' = td" using started(4) st(3) by simp
    have "at_stage c 4 s'"
      using started st \<open>td' = td\<close>
      by (intro at_stageI [of k1 "tick s" _ _ _ td]) (simp_all add: full_def)
    then show ?thesis using at_stage_reached [of 4 c s'] by auto
  qed
qed

lemma interrupt_from_1:
  assumes "at_stage c 1 s" "interrupt_server w s = (r, s')"
  shows "if r = None then at_stage c 2 s' else reached c s'"
proof -
  from assms(1) obtain k1 k2 td where st: "k1 < k2"
      "filter lifecycle (log s) = take 1 (full k1 k2 (server_argv c td))"
      "trace_dir s = Some td" "k1 < tick s" "server s = Some k1"
    by (auto simp: at_stage_def)
  have s': "s' = emit (Act (Kill k1) r) (answered s)"
    using assms(2) st(5) by (auto simp: interrupt_server_def act_def Let_def)
  show ?thesis
  proof (cases r)
    case None
    then have "at_stage c 2 s'"
      using st s' by (intro at_stageI [of k1 k2 _ _ _ td]) (simp_all add: full_def emit_def answered_def)
    then show ?thesis using None by simp
  next
    case (Some e)
    then have "at_stage c 1 s'"
      using st s' by (intro at_stageI [of k1 k2 _ _ _ td]) (simp_all add: full_def emit_def answered_def)
    then show ?thesis using Some at_stage_reached [of 1 c s'] by auto
  qed
qed

lemma interrupt_from_4:
  assumes "at_stage c 4 s" "interrupt_server w s = (r, s')"
  shows "if r = None then at_stage c 5 s' else reached c s'"
proof -
  from assms(1) obtain k1 k2 td where st: "k1 < k2"
      "filter lifecycle (log s) = take 4 (full k1 k2 (server_argv c td))"
      "trace_dir s = Some td" "k1 < tick s" "server s = Some k2" "k2 < tick s"
    by (auto simp: at_stage_def)
  have s': "s' = emit (Act (Kill k2) r) (answered s)"
    using assms(2) st(5) by (auto simp: interrupt_server_def act_def Let_def)
  show ?thesis
  proof (cases r)
    case None
    then have "at_stage c 5 s'"
      using st s' by (intro at_stageI [of k1 k2 _ _ _ td]) (simp_all add: full_def emit_def answered_def)
    then show ?thesis using None by simp
  next
    case (Some e)
    then have "at_stage c 4 s'"
      using st s' by (intro at_stageI [of k1 k2 _ _ _ td]) (simp_all add: full_def emit_def answered_def)
    then show ?thesis using Some at_stage_reached [of 4 c s'] by auto
  qed
qed

lemma wait_from_2:
  assumes "at_stage c 2 s" "wait_server w s = Some (r, s')"
  shows "if r = None then at_stage c 3 s' else reached c s'"
proof -
  from assms(1) obtain k1 k2 td where st: "k1 < k2"
      "filter lifecycle (log s) = take 2 (full k1 k2 (server_argv c td))"
      "trace_dir s = Some td" "k1 < tick s" "server s = Some k1"
    by (auto simp: at_stage_def)
  have s': "r = None \<and> s' = emit (Wait_exit k1) s"
    using assms(2) st(5) by (auto simp: wait_server_def split: if_splits)
  then have "at_stage c 3 s'"
    using st by (intro at_stageI [of k1 k2 _ _ _ td]) (simp_all add: full_def emit_def)
  then show ?thesis using s' by simp
qed

lemma wait_from_5:
  assumes "at_stage c 5 s" "wait_server w s = Some (r, s')"
  shows "if r = None then at_stage c 6 s' else reached c s'"
proof -
  from assms(1) obtain k1 k2 td where st: "k1 < k2"
      "filter lifecycle (log s) = take 5 (full k1 k2 (server_argv c td))"
      "trace_dir s = Some td" "k1 < tick s" "server s = Some k2" "k2 < tick s"
    by (auto simp: at_stage_def)
  have s': "r = None \<and> s' = emit (Wait_exit k2) s"
    using assms(2) st(5) by (auto simp: wait_server_def split: if_splits)
  then have "at_stage c 6 s'"
    using st by (intro at_stageI [of k1 k2 _ _ _ td]) (simp_all add: full_def emit_def)
  then show ?thesis using s' by simp
qed

lemma verdict_from_6:
  assumes "at_stage c 6 s" "total (print_err t) s = Some (r, s')"
  shows "if r = None then at_stage c 6 s' else reached c s'"
proof -
  from assms(1) obtain k1 k2 td where st: "k1 < k2"
      "filter lifecycle (log s) = take 6 (full k1 k2 (server_argv c td))"
      "trace_dir s = Some td" "k1 < tick s" "server s = Some k2" "k2 < tick s"
    by (auto simp: at_stage_def)
  have s': "r = None \<and> s' = emit (Print_err (t @ [10])) s"
    using assms(2) by (auto simp: total_def print_err_def)
  then have "at_stage c 6 s'"
    using st by (intro at_stageI [of k1 k2 _ _ _ td]) (simp_all add: full_def emit_def)
  then show ?thesis using s' by simp
qed


lemma hoare_Cons:
  assumes "\<And>s r s'. P s \<Longrightarrow> f s = Some (r, s') \<Longrightarrow> (if r = None then M s' else E s')"
    and "hoare M fs Q E"
  shows "hoare P (f # fs) Q E"
proof -
  have "hoare P [f] M E" using assms(1) by (rule hoare_single)
  then have "hoare P ([f] @ fs) Q E" using assms(2) by (rule hoare_append)
  then show ?thesis by simp
qed

lemma hoare_Nil: "hoare P [] P E"
  unfolding hoare_def by simp

lemma quiet_segments:
  "list_all (step_rel quiet) (browse w c)"
  "list_all (step_rel quiet) (scenario_source w)"
  "list_all (step_rel quiet) (open_note w)"
  "list_all (step_rel quiet) (write_note w)"
  "list_all (step_rel quiet) (verify_persisted w)"
  by (simp_all add: browse_def scenario_source_def open_note_def write_note_def verify_persisted_def
        step_rel_total)

lemma tame_segments:
  "list_all (step_rel tame) (provision w c)"
  "list_all (step_rel tame) (prepare_trace w c)"
  by (simp_all add: provision_def prepare_trace_def step_rel_total quiet_tame quiet_print_err
        ustr_def)


lemma quiet_block:
  "n \<le> 6 \<Longrightarrow> list_all (step_rel quiet) fs \<Longrightarrow> hoare (at_stage c n) fs (at_stage c n) (reached c)"
  by (rule hoare_rel [where R = quiet]) (auto intro: quiet_trans at_stage_quiet at_stage_reached)

lemma tame_block:
  "list_all (step_rel tame) fs \<Longrightarrow> hoare (at_stage c 0) fs (at_stage c 0) (reached c)"
  by (rule hoare_rel [where R = tame]) (auto intro: tame_trans at_stage_tame at_stage_reached [of 0])

lemma quiet_step:
  assumes "n \<le> 6" "\<And>s. quiet s (snd (f s))" "at_stage c n s" "total f s = Some (r, s')"
  shows "if r = None then at_stage c n s' else reached c s'"
proof -
  have "quiet s s'" using assms(2) [of s] assms(4) by (auto simp: total_def)
  then have "at_stage c n s'" using assms(3) at_stage_quiet by blast
  then show ?thesis using assms(1) at_stage_reached by auto
qed

lemma hoare_launch: "hoare (at_stage c 0) (launch w c) (at_stage c 1) (reached c)"
proof -
  have "hoare (at_stage c 1) [] (at_stage c 1) (reached c)" by (rule hoare_Nil)
  then have "hoare (at_stage c 0) [start_server w c] (at_stage c 1) (reached c)"
    by (rule hoare_Cons [rotated]) (erule (1) start_from_0)
  then show ?thesis
    unfolding launch_def
    by (rule hoare_Cons [rotated]) (rule quiet_step [of 0], simp_all)
qed

lemma hoare_restart: "hoare (at_stage c 1) (restart w c) (at_stage c 4) (reached c)"
proof -
  have "hoare (at_stage c 4) [] (at_stage c 4) (reached c)" by (rule hoare_Nil)
  then have "hoare (at_stage c 3) [start_server w c] (at_stage c 4) (reached c)"
    by (rule hoare_Cons [rotated]) (erule (1) start_from_3)
  then have "hoare (at_stage c 2) [wait_server w, start_server w c] (at_stage c 4) (reached c)"
    by (rule hoare_Cons [rotated]) (erule (1) wait_from_2)
  then show ?thesis
    unfolding restart_def
    by (rule hoare_Cons [rotated]) (rule interrupt_from_1, simp_all add: total_def)
qed

lemma hoare_shutdown: "hoare (at_stage c 4) (shutdown w) (at_stage c 6) (reached c)"
proof -
  have "hoare (at_stage c 6) [] (at_stage c 6) (reached c)" by (rule hoare_Nil)
  then have "hoare (at_stage c 5) [wait_server w] (at_stage c 6) (reached c)"
    by (rule hoare_Cons [rotated]) (erule (1) wait_from_5)
  then have "hoare (at_stage c 4) [total (interrupt_server w), wait_server w] (at_stage c 6) (reached c)"
    by (rule hoare_Cons [rotated]) (rule interrupt_from_4, simp_all add: total_def)
  then show ?thesis
    unfolding shutdown_def
    by (rule hoare_Cons [rotated]) (rule quiet_step [of 4], simp_all)
qed

lemma hoare_finish: "hoare (at_stage c 6) (finish w c) (at_stage c 6) (reached c)"
proof -
  have "hoare (at_stage c 6) [] (at_stage c 6) (reached c)" by (rule hoare_Nil)
  then have "hoare (at_stage c 6) [total (print_err ([10] @ ustr ''PASS''))] (at_stage c 6) (reached c)"
    by (rule hoare_Cons [rotated]) (erule (1) verdict_from_6)
  then have "hoare (at_stage c 6)
               [total (check_call w [ustr ''sudo'', ustr ''umount'', testdir_alias c] None False),
                total (print_err ([10] @ ustr ''PASS''))] (at_stage c 6) (reached c)"
    by (rule hoare_Cons [rotated]) (rule quiet_step [of 6], simp_all)
  then have "hoare (at_stage c 6)
               [total (verify_export w c),
                total (check_call w [ustr ''sudo'', ustr ''umount'', testdir_alias c] None False),
                total (print_err ([10] @ ustr ''PASS''))] (at_stage c 6) (reached c)"
    by (rule hoare_Cons [rotated]) (rule quiet_step [of 6], simp_all)
  then have "hoare (at_stage c 6)
               [total (check_call w (pernosco_cmd c @ [ustr ''--user'', ustr ''1200'', ustr ''build'',
                                              ustr ''--copy-sources'', ustr ''/'']) None True),
                total (verify_export w c),
                total (check_call w [ustr ''sudo'', ustr ''umount'', testdir_alias c] None False),
                total (print_err ([10] @ ustr ''PASS''))] (at_stage c 6) (reached c)"
    by (rule hoare_Cons [rotated]) (rule quiet_step [of 6], simp_all)
  then show ?thesis
    unfolding finish_def
    by (rule hoare_Cons [rotated]) (rule quiet_step [of 6], simp_all)
qed

lemma lifecycle_of_steps: "hoare (at_stage c 0) (steps w c) (at_stage c 6) (reached c)"
  unfolding steps_def
  by (intro hoare_append [OF tame_block [OF tame_segments(1)]]
            hoare_append [OF tame_block [OF tame_segments(2)]]
            hoare_append [OF hoare_launch]
            hoare_append [OF quiet_block [of 1, OF _ quiet_segments(1)]]
            hoare_append [OF quiet_block [of 1, OF _ quiet_segments(2)]]
            hoare_append [OF quiet_block [of 1, OF _ quiet_segments(3)]]
            hoare_append [OF quiet_block [of 1, OF _ quiet_segments(4)]]
            hoare_append [OF hoare_restart]
            hoare_append [OF quiet_block [of 4, OF _ quiet_segments(5)]]
            hoare_append [OF hoare_shutdown]
            hoare_finish) simp_all

lemma initial_stage: "at_stage c 0 initial"
  by (rule at_stageI [of 0 1 _ _ _ "[]"]) (simp_all add: initial_def)

lemma lifecycle_of_run:
  assumes "script w c = Some (r, s)"
  shows "if r = None then at_stage c 6 s else reached c s"
  using lifecycle_of_steps [of c w] assms initial_stage [of c]
  unfolding hoare_def script_def by blast

lemma count_filter_lifecycle: "lifecycle e \<Longrightarrow> count_list (filter lifecycle l) e = count_list l e"
  by (induction l) auto

lemma six_cases: "n \<le> 6 \<Longrightarrow> n = 0 \<or> n = 1 \<or> n = 2 \<or> n = 3 \<or> n = 4 \<or> n = 5 \<or> n = (6::nat)"
  by arith

lemma counts_of_prefix:
  assumes "k1 < k2" "n \<le> 6" "Popen k b \<in> set (take n (full k1 k2 a))"
  shows "count_list (take n (full k1 k2 a)) (Act (Kill k) None) \<le> 1
       \<and> count_list (take n (full k1 k2 a)) (Wait_exit k)
           \<le> count_list (take n (full k1 k2 a)) (Act (Kill k) None)
       \<and> (n = 6 \<longrightarrow> count_list (take n (full k1 k2 a)) (Act (Kill k) None) = 1
                  \<and> count_list (take n (full k1 k2 a)) (Wait_exit k) = 1
                  \<and> shutdowns k (take n (full k1 k2 a)) = 1)"
  using six_cases [OF assms(2)] assms(1,3)
  by (elim disjE) (auto simp: full_def)

subsection \<open>The verdict\<close>

lemma unmarked_refl [simp]: "unmarked s s"
  by (simp add: unmarked_def)

lemma unmarked_trans: "unmarked a b \<Longrightarrow> unmarked b c \<Longrightarrow> unmarked a c"
  by (auto simp: unmarked_def)

lemma harmless_unmarked: "list_all harmless l \<Longrightarrow> pass_marker \<notin> set l"
  by (induction l) (auto simp: harmless_def)

lemma quiet_unmarked: "quiet a b \<Longrightarrow> unmarked a b"
  by (auto simp: quiet_def unmarked_def harmless_unmarked)

lemma tame_unmarked: "tame a b \<Longrightarrow> unmarked a b"
  by (auto simp: tame_def unmarked_def harmless_unmarked)

lemma step_rel_mono: "(\<And>a b. R a b \<Longrightarrow> R' a b) \<Longrightarrow> step_rel R f \<Longrightarrow> step_rel R' f"
  by (auto simp: step_rel_def)

lemma list_step_rel_mono:
  "(\<And>a b. R a b \<Longrightarrow> R' a b) \<Longrightarrow> list_all (step_rel R) fs \<Longrightarrow> list_all (step_rel R') fs"
  by (induction fs) (auto intro: step_rel_mono)

lemma echo_not_pass [simp]: "echo l \<noteq> pass_marker"
  by (simp add: echo_def pass_marker_def)

lemma unmarked_start_server: "step_rel unmarked (start_server w c)"
  unfolding step_rel_def
proof (intro allI impI)
  fix s r s'
  assume "start_server w c s = Some (r, s')"
  then show "unmarked s s'"
  proof (cases rule: start_server_cases)
    case failed
    then show ?thesis by (simp add: unmarked_def)
  next
    case (started td lines)
    have "pass_marker \<notin> set (Popen (tick s) (server_argv c td) # map echo lines)"
      by (auto simp: pass_marker_def echo_def)
    then show ?thesis using started(5) unfolding unmarked_def by blast
  qed
qed

lemma unmarked_interrupt: "step_rel unmarked (total (interrupt_server w))"
  by (auto simp: step_rel_def total_def interrupt_server_def act_def Let_def unmarked_def
        emit_def answered_def pass_marker_def split: option.splits)

lemma unmarked_wait: "step_rel unmarked (wait_server w)"
  by (auto simp: step_rel_def wait_server_def unmarked_def emit_def pass_marker_def
           split: option.splits if_splits)

lemma finish_split: "finish w c = checks w c @ [total (print_err ([10] @ ustr ''PASS''))]"
  by (simp add: checks_def finish_def)

lemma quiet_checks: "list_all (step_rel quiet) (checks w c)"
  by (simp add: checks_def finish_def step_rel_total)

lemma steps_split: "steps w c = body w c @ [total (print_err ([10] @ ustr ''PASS''))]"
  by (simp add: steps_def body_def finish_split)

lemma unmarked_body: "list_all (step_rel unmarked) (body w c)"
  using list_step_rel_mono [OF tame_unmarked tame_segments(1) [of w c]]
        list_step_rel_mono [OF tame_unmarked tame_segments(2) [of w c]]
        list_step_rel_mono [OF quiet_unmarked quiet_segments(1) [of w c]]
        list_step_rel_mono [OF quiet_unmarked quiet_segments(2) [of w]]
        list_step_rel_mono [OF quiet_unmarked quiet_segments(3) [of w]]
        list_step_rel_mono [OF quiet_unmarked quiet_segments(4) [of w]]
        list_step_rel_mono [OF quiet_unmarked quiet_segments(5) [of w]]
        list_step_rel_mono [OF quiet_unmarked quiet_checks [of w c]]
  by (simp add: body_def launch_def restart_def shutdown_def unmarked_start_server
        unmarked_interrupt unmarked_wait step_rel_total quiet_unmarked)

lemma body_unmarked:
  assumes "run_steps (body w c) initial = Some (r, s)"
  shows "pass_marker \<notin> set (log s)"
proof -
  have "unmarked initial s"
    using run_steps_rel [where R = unmarked, OF unmarked_refl unmarked_trans unmarked_body assms] .
  then show ?thesis by (auto simp: unmarked_def initial_def)
qed

lemma script_cases:
  assumes "script w c = Some (r, s)"
  obtains (aborted) "r \<noteq> None" "run_steps (body w c) initial = Some (r, s)"
  | (passed) s1 where "r = None" "run_steps (body w c) initial = Some (None, s1)"
      "s = emit pass_marker s1"
  using assms unfolding script_def steps_split run_steps_append
  by (auto simp: total_def print_err_def pass_marker_def split: option.splits prod.splits)

lemma marker_count:
  assumes "script w c = Some (r, s)"
  shows "count_list (log s) pass_marker = (if r = None then 1 else 0)"
  using assms
proof (cases rule: script_cases)
  case aborted
  then show ?thesis using body_unmarked [of w c r s] by (simp add: count_list_0_iff)
next
  case (passed s1)
  then show ?thesis using body_unmarked [of w c None s1] by (simp add: emit_def count_list_0_iff)
qed

subsection \<open>What a step that returned has done\<close>

lemma run_steps_Cons_ok:
  "run_steps (f # fs) s = Some (None, s') \<longleftrightarrow>
     (\<exists>s1. f s = Some (None, s1) \<and> run_steps fs s1 = Some (None, s'))"
  by (auto split: option.splits prod.splits)

lemma run_steps_append_ok:
  "run_steps (xs @ ys) s = Some (None, s') \<longleftrightarrow>
     (\<exists>s1. run_steps xs s = Some (None, s1) \<and> run_steps ys s1 = Some (None, s'))"
  by (auto simp: run_steps_append split: option.splits prod.splits)

lemma total_ok: "total f s = Some (r, s') \<longleftrightarrow> f s = (r, s')"
  by (auto simp: total_def)

lemma check_call_ok:
  "check_call w argv cwd env s = (None, s') \<Longrightarrow>
   s' = emit (Exec argv cwd env) (answered s) \<and> (\<exists>out. proc w (tick s) argv = Exited 0 out)"
  by (auto simp: check_call_def Let_def split: proc_result.splits if_splits)

lemma act_ok: "act w a s = (None, s') \<Longrightarrow> s' = emit (Act a None) (answered s)"
  by (auto simp: act_def Let_def)

lemma driver_act_ok: "driver_act w a s = (None, s') \<Longrightarrow> s' = emit (Act a None) (answered s)"
  by (auto simp: driver_act_def dest: act_ok split: option.splits)

lemma check_containers_ok:
  "check_containers w s = (None, s') \<Longrightarrow>
   s' = emit (Exec [ustr ''docker'', ustr ''ps'', ustr ''-aq''] None False) (answered s)"
  by (auto simp: check_containers_def check_output_def Let_def print_err_def
           split: proc_result.splits if_splits)

lemma verify_export_ok:
  "verify_export w c s = (None, s') \<Longrightarrow>
   s' = emit (Exec (unzip_argv (trace_dir s)) None False) (answered s)
   \<and> (\<exists>out. proc w (tick s) (unzip_argv (trace_dir s)) = Exited 0 out
             \<and> expected_member c \<in> set (splitlines out))"
  by (auto simp: verify_export_def check_output_def unzip_argv_def Let_def
           split: proc_result.splits if_splits)

lemma checks_ok:
  assumes "run_steps (checks w c) s = Some (None, s')"
  shows "s' = s\<lparr>tick := tick s + 4, log := log s @ butlast (final_events c (trace_dir s))\<rparr>
         \<and> (\<exists>out. proc w (tick s + 2) (unzip_argv (trace_dir s)) = Exited 0 out
                   \<and> expected_member c \<in> set (splitlines out))"
proof -
  from assms obtain s1 s2 s3 where
      a: "check_containers w s = (None, s1)"
      and b: "check_call w (copy_sources_argv c) None True s1 = (None, s2)"
      and c: "verify_export w c s2 = (None, s3)"
      and d: "check_call w [ustr ''sudo'', ustr ''umount'', testdir_alias c] None False s3 = (None, s')"
    by (auto simp: checks_def finish_def run_steps_Cons_ok total_ok copy_sources_argv_def
             simp del: run_steps.simps(2))
  have s1: "s1 = emit (Exec [ustr ''docker'', ustr ''ps'', ustr ''-aq''] None False) (answered s)"
    using check_containers_ok [OF a] .
  have s2: "s2 = emit (Exec (copy_sources_argv c) None True) (answered s1)"
    using check_call_ok [OF b] by simp
  from verify_export_ok [OF c] obtain out where
      s3: "s3 = emit (Exec (unzip_argv (trace_dir s2)) None False) (answered s2)"
      and out: "proc w (tick s2) (unzip_argv (trace_dir s2)) = Exited 0 out"
               "expected_member c \<in> set (splitlines out)"
    by blast
  have s': "s' = emit (Exec [ustr ''sudo'', ustr ''umount'', testdir_alias c] None False) (answered s3)"
    using check_call_ok [OF d] by simp
  have t2: "tick s2 = tick s + 2" "trace_dir s2 = trace_dir s"
    by (simp_all add: s1 s2 emit_def answered_def)
  have "s' = s\<lparr>tick := tick s + 4, log := log s @ butlast (final_events c (trace_dir s))\<rparr>"
    by (simp add: s' s3 s2 s1 emit_def answered_def final_events_def)
  then show ?thesis using out t2 by auto
qed


lemma py_eq_str: "py_eq v (PStr t) \<Longrightarrow> v = PStr t"
  by (cases v) (auto simp: py_eq_def)

lemma script_succeeds_true:
  "script_succeeds w scr ex d s = (Inr True, s1) \<Longrightarrow>
   \<exists>v. s1 = emit (Script scr (Returned v)) (answered s) \<and> py_eq v ex"
  by (auto simp: script_succeeds_def Let_def split: option.splits script_outcome.splits if_splits)

lemma quiet_logs: "quiet s s' \<Longrightarrow> \<exists>l. log s' = log s @ l \<and> list_all harmless l"
  by (auto simp: quiet_def)

lemma poll_once:
  assumes "poll_script w scr ex d n s = (None, s')" "script_succeeds w scr ex d s = (r, s1)"
  shows "(r = Inr True \<and> s' = s1) \<or> (\<exists>m. n = Suc m \<and> poll_script w scr ex d m s1 = (None, s'))"
proof -
  have "(case (r, s1) of
           (Inr b, s1) \<Rightarrow>
             if b then (None, s1)
             else (case n of 0 \<Rightarrow> (Some TimeoutException, s1)
                   | Suc m \<Rightarrow> poll_script w scr ex d m s1)
         | (Inl e, s1) \<Rightarrow>
             if e = NoSuchElementException then
               (case n of 0 \<Rightarrow> (Some TimeoutException, s1)
                | Suc m \<Rightarrow> poll_script w scr ex d m s1)
             else (Some e, s1)) = (None, s')"
    using assms by (subst (asm) poll_script.simps) simp
  then show ?thesis
    by (cases r; cases n) (simp_all split: if_splits)
qed

lemma poll_script_ok:
  "poll_script w scr ex d n s = (None, s') \<Longrightarrow>
   \<exists>l v. log s' = log s @ l @ [Script scr (Returned v)] \<and> py_eq v ex \<and> list_all harmless l"
proof (induction n arbitrary: s)
  case 0
  obtain r s1 where a: "script_succeeds w scr ex d s = (r, s1)" by (cases "script_succeeds w scr ex d s")
  from poll_once [OF "0.prems" a] have "script_succeeds w scr ex d s = (Inr True, s')"
    using a by simp
  from script_succeeds_true [OF this] obtain v
    where v: "s' = emit (Script scr (Returned v)) (answered s)" "py_eq v ex" by blast
  have "log s' = log s @ [] @ [Script scr (Returned v)]" using v(1) by (simp add: emit_def answered_def)
  then show ?case using v(2) by (intro exI [of _ "[]"] exI [of _ v]) simp
next
  case (Suc n)
  obtain r s1 where a: "script_succeeds w scr ex d s = (r, s1)" by (cases "script_succeeds w scr ex d s")
  from poll_once [OF Suc.prems a] show ?case
  proof (elim disjE conjE exE)
    assume "r = Inr True" "s' = s1"
    then have "script_succeeds w scr ex d s = (Inr True, s')" using a by simp
    from script_succeeds_true [OF this] obtain v
      where v: "s' = emit (Script scr (Returned v)) (answered s)" "py_eq v ex" by blast
    have "log s' = log s @ [] @ [Script scr (Returned v)]" using v(1) by (simp add: emit_def answered_def)
    then show ?thesis using v(2) by (intro exI [of _ "[]"] exI [of _ v]) simp
  next
    fix m assume "Suc n = Suc m" and again: "poll_script w scr ex d m s1 = (None, s')"
    then have "poll_script w scr ex d n s1 = (None, s')" by simp
    from Suc.IH [OF this] obtain l v where
      l: "log s' = log s1 @ l @ [Script scr (Returned v)]" "py_eq v ex" "list_all harmless l"
      by blast
    have "quiet s s1" using quiet_script_succeeds [of s w scr ex d] a by simp
    then obtain l1 where l1: "log s1 = log s @ l1" "list_all harmless l1" using quiet_logs by blast
    have "log s' = log s @ (l1 @ l) @ [Script scr (Returned v)]" using l(1) l1(1) by simp
    moreover have "list_all harmless (l1 @ l)" using l(3) l1(2) by simp
    ultimately show ?thesis using l(2) by (intro exI [of _ "l1 @ l"] exI [of _ v]) simp
  qed
qed

lemma block_quiet: "list_all (step_rel quiet) fs \<Longrightarrow> run_steps fs s = Some (r, s') \<Longrightarrow> quiet s s'"
  by (rule run_steps_rel [where R = quiet and fs = fs]) (auto intro: quiet_trans)

lemma launch_ok:
  assumes "run_steps (launch w c) s = Some (None, s')"
  obtains td lines where "trace_dir s' = Some td" "server s' = Some (tick s)"
    "log s' = log s @ Print_out (ustr ''Starting server'' @ [10])
                     # Popen (tick s) (server_argv c td) # map echo lines"
proof -
  from assms obtain s1 where a: "s1 = emit (Print_out (ustr ''Starting server'' @ [10])) s"
      and b: "start_server w c s1 = Some (None, s')"
    by (auto simp: launch_def run_steps_Cons_ok total_ok print_out_def simp del: run_steps.simps(2))
  from b show ?thesis
  proof (cases rule: start_server_cases)
    case failed
    then show ?thesis by simp
  next
    case (started td lines)
    then show ?thesis using a that [of td lines] by (simp add: emit_def)
  qed
qed

lemma restart_ok:
  assumes "run_steps (restart w c) s = Some (None, s')" "server s = Some k" "trace_dir s = Some td"
  obtains lines where "trace_dir s' = Some td" "server s' = Some (Suc (tick s))"
    "log s' = log s @ [Act (Kill k) None, Wait_exit k, Popen (Suc (tick s)) (server_argv c td)]
                     @ map echo lines"
proof -
  from assms(1) obtain s1 s2 where a: "interrupt_server w s = (None, s1)"
      and b: "wait_server w s1 = Some (None, s2)"
      and c: "start_server w c s2 = Some (None, s')"
    by (auto simp: restart_def run_steps_Cons_ok total_ok simp del: run_steps.simps(2))
  have s1: "s1 = emit (Act (Kill k) None) (answered s)"
    using a assms(2) by (auto simp: interrupt_server_def dest: act_ok)
  have s2: "s2 = emit (Wait_exit k) s1"
    using b s1 assms(2) by (auto simp: wait_server_def emit_def answered_def split: if_splits)
  from c show ?thesis
  proof (cases rule: start_server_cases)
    case failed
    then show ?thesis by simp
  next
    case (started td' lines)
    then show ?thesis using s1 s2 assms(3) that [of lines] by (simp add: emit_def answered_def)
  qed
qed

lemma shutdown_ok:
  assumes "run_steps (shutdown w) s = Some (None, s')" "server s = Some k"
  shows "log s' = log s @ [Act Quit None, Act (Kill k) None, Wait_exit k]
         \<and> trace_dir s' = trace_dir s"
proof -
  from assms(1) obtain s1 s2 where a: "driver_act w Quit s = (None, s1)"
      and b: "interrupt_server w s1 = (None, s2)"
      and c: "wait_server w s2 = Some (None, s')"
    by (auto simp: shutdown_def run_steps_Cons_ok total_ok simp del: run_steps.simps(2))
  have s1: "s1 = emit (Act Quit None) (answered s)" using driver_act_ok [OF a] .
  have s2: "s2 = emit (Act (Kill k) None) (answered s1)"
    using b s1 assms(2) by (auto simp: interrupt_server_def emit_def answered_def dest: act_ok)
  have "s' = emit (Wait_exit k) s2"
    using c s2 s1 assms(2) by (auto simp: wait_server_def emit_def answered_def split: if_splits)
  then show ?thesis by (simp add: s1 s2 emit_def answered_def)
qed

lemma write_note_ok:
  assumes "run_steps (write_note w) s = Some (None, s')"
  obtains l where "quiet s s'"
    "log s' = log s @ Act (Perform [Send_keys (ustr ''HelloKitty'')]) None # l" "list_all harmless l"
proof -
  have q: "quiet s s'" using block_quiet [OF quiet_segments(4) assms] .
  from assms obtain s1 where a: "driver_act w (Perform [Send_keys (ustr ''HelloKitty'')]) s = (None, s1)"
      and b: "run_steps (tl (write_note w)) s1 = Some (None, s')"
    by (auto simp: write_note_def run_steps_Cons_ok total_ok simp del: run_steps.simps(2))
  have s1: "s1 = emit (Act (Perform [Send_keys (ustr ''HelloKitty'')]) None) (answered s)"
    using driver_act_ok [OF a] .
  have "list_all (step_rel quiet) (tl (write_note w))"
    using quiet_segments(4) [of w] by (simp add: write_note_def)
  from block_quiet [OF this b] obtain l where "log s' = log s1 @ l" "list_all harmless l"
    using quiet_logs by blast
  then show ?thesis using q s1 that [of l] by (simp add: emit_def answered_def)
qed

lemma verify_persisted_ok:
  assumes "run_steps (verify_persisted w) s = Some (None, s')"
  obtains l where "quiet s s'"
    "log s' = log s @ l @ [Script value_script (Returned (PStr (ustr ''HelloKitty'')))]"
    "list_all harmless l"
proof -
  have q: "quiet s s'" using block_quiet [OF quiet_segments(5) assms] .
  from assms obtain r1 s1 where a: "open_browser w (url s) s = (r1, s1)"
      and b: "until_script w value_script (PStr (ustr ''HelloKitty'')) s1 = (None, s')"
    by (auto simp: verify_persisted_def run_steps_Cons_ok total_ok simp del: run_steps.simps(2))
  have "quiet s s1" using quiet_open_browser [of s w "url s"] a by simp
  then obtain l1 where l1: "log s1 = log s @ l1" "list_all harmless l1" using quiet_logs by blast
  from b obtain l v where l: "log s' = log s1 @ l @ [Script value_script (Returned v)]"
      "py_eq v (PStr (ustr ''HelloKitty''))" "list_all harmless l"
    unfolding until_script_def using poll_script_ok by blast
  have "v = PStr (ustr ''HelloKitty'')" using l(2) py_eq_str by blast
  then have "log s' = log s @ (l1 @ l) @ [Script value_script (Returned (PStr (ustr ''HelloKitty'')))]"
    and "list_all harmless (l1 @ l)"
    using l l1 by simp_all
  then show ?thesis using q that by blast
qed

subsection \<open>Runs of the whole script\<close>

lemma passed_run:
  assumes "script w c = Some (None, s)"
  obtains s0 where "run_steps (provision w c @ prepare_trace w c @ launch w c @ browse w c
                      @ scenario_source w @ open_note w @ write_note w @ restart w c
                      @ verify_persisted w @ shutdown w) initial = Some (None, s0)"
    "s = s0\<lparr>tick := tick s0 + 4, log := log s0 @ final_events c (trace_dir s0)\<rparr>"
    "\<exists>out. proc w (tick s0 + 2) (unzip_argv (trace_dir s0)) = Exited 0 out
           \<and> expected_member c \<in> set (splitlines out)"
proof -
  from assms obtain s1 where s1: "run_steps (body w c) initial = Some (None, s1)"
      "s = emit pass_marker s1"
    by (cases rule: script_cases) simp_all
  let ?before = "provision w c @ prepare_trace w c @ launch w c @ browse w c
                      @ scenario_source w @ open_note w @ write_note w @ restart w c
                      @ verify_persisted w @ shutdown w"
  have "body w c = ?before @ checks w c" by (simp add: body_def)
  then obtain s0 where s0: "run_steps ?before initial = Some (None, s0)"
      "run_steps (checks w c) s0 = Some (None, s1)"
    using s1(1) run_steps_append_ok [of ?before "checks w c" initial s1] by auto
  from checks_ok [OF s0(2)] have
      c1: "s1 = s0\<lparr>tick := tick s0 + 4, log := log s0 @ butlast (final_events c (trace_dir s0))\<rparr>"
      and c2: "\<exists>out. proc w (tick s0 + 2) (unzip_argv (trace_dir s0)) = Exited 0 out
           \<and> expected_member c \<in> set (splitlines out)"
    by blast+
  have "s = s0\<lparr>tick := tick s0 + 4, log := log s0 @ final_events c (trace_dir s0)\<rparr>"
    using s1(2) c1 by (simp add: emit_def final_events_def)
  then show ?thesis using s0(1) c2 that by blast
qed

subsection \<open>The text on the diagnostic stream\<close>

text \<open>Occurrences of a text that holds no line feed are counted line by line.\<close>

lemma startswith_prefix: "startswith s p \<longleftrightarrow> prefix p s"
  unfolding startswith_def
  by (metis append_eq_conv_conj prefix_def)

lemma startswith_newline:
  assumes "10 \<notin> set p"
  shows "startswith (a @ 10 # rest) p \<longleftrightarrow> startswith a p"
proof -
  have "prefix p (a @ 10 # rest) \<longleftrightarrow> prefix p a"
  proof
    assume "prefix p (a @ 10 # rest)"
    then consider "prefix p a" | us where "p = a @ us" "prefix us (10 # rest)"
      by (auto simp: prefix_append)
    then show "prefix p a"
    proof cases
      case 1
      then show ?thesis .
    next
      case 2
      then have "us = []" using assms by (cases us) auto
      then show ?thesis using 2(1) by simp
    qed
  next
    assume "prefix p a"
    then show "prefix p (a @ 10 # rest)" by (simp add: prefix_prefix)
  qed
  then show ?thesis by (simp add: startswith_prefix)
qed

lemma occurrences_line:
  assumes "10 \<notin> set p" "p \<noteq> []"
  shows "occurrences p (m @ 10 # rest) = occurrences p m + occurrences p rest"
proof (induction m)
  case Nil
  have "\<not> startswith (10 # rest) p"
    using assms by (cases p) (auto simp: startswith_def)
  then show ?case using assms by simp
next
  case (Cons x m)
  have "startswith (x # m @ 10 # rest) p \<longleftrightarrow> startswith (x # m) p"
    using startswith_newline [OF assms(1), of "x # m" rest] by simp
  then show ?case using Cons by simp
qed

lemma occurrences_skip:
  assumes "hd p \<notin> set a" "p \<noteq> []"
  shows "occurrences p (a @ b) = occurrences p b"
  using assms(1)
proof (induction a)
  case Nil
  then show ?case by simp
next
  case (Cons x a)
  have "\<not> startswith (x # a @ b) p"
    using Cons.prems assms(2) by (cases p) (auto simp: startswith_def)
  then show ?case using Cons by simp
qed

lemma occurrences_none:
  assumes "hd p \<notin> set a" "p \<noteq> []"
  shows "occurrences p a = 0"
  using occurrences_skip [OF assms, of "[]"] assms(2) by simp

lemma startswith_foreign:
  assumes "set b \<inter> set p = {}"
  shows "startswith (a @ b) p \<longleftrightarrow> startswith a p"
proof -
  have "prefix p (a @ b) \<longleftrightarrow> prefix p a"
  proof
    assume "prefix p (a @ b)"
    then consider "prefix p a" | us where "p = a @ us" "prefix us b"
      by (auto simp: prefix_append)
    then show "prefix p a"
    proof cases
      case 1
      then show ?thesis .
    next
      case 2
      have "set us \<subseteq> set b" using 2(2) by (auto simp: prefix_def)
      moreover have "set us \<subseteq> set p" using 2(1) by auto
      ultimately have "us = []" using assms by (cases us) auto
      then show ?thesis using 2(1) by simp
    qed
  next
    assume "prefix p a"
    then show "prefix p (a @ b)" by (simp add: prefix_prefix)
  qed
  then show ?thesis by (simp add: startswith_prefix)
qed

lemma occurrences_foreign:
  assumes "set b \<inter> set p = {}" "p \<noteq> []"
  shows "occurrences p (a @ b) = occurrences p a"
proof (induction a)
  case Nil
  have "hd p \<notin> set b" using assms by (cases p) auto
  then show ?case using occurrences_none assms(2) by simp
next
  case (Cons x a)
  have "startswith (x # a @ b) p \<longleftrightarrow> startswith (x # a) p"
    using startswith_foreign [OF assms(1), of "x # a"] by simp
  then show ?case using Cons by simp
qed

text \<open>The occurrences of \<open>PASS\<close> in the messages are those in the texts they quote.\<close>

lemma word_facts: "10 \<notin> set (ustr ''PASS'')" "ustr ''PASS'' \<noteq> []" "hd (ustr ''PASS'') = 80"
  "set (ustr ''PASS'') = {80, 65, 83}"
  by (auto simp: ustr_def)

lemma occurrences_verdict: "occurrences (ustr ''PASS'') (([10] @ ustr ''PASS'') @ [10]) = 1"
  by (simp add: ustr_def startswith_def)

lemma occurrences_working_directory:
  "occurrences (ustr ''PASS'') (working_directory c) = occurrences (ustr ''PASS'') (tmpdir c)"
proof -
  have "occurrences (ustr ''PASS'') (working_directory c)
          = occurrences (ustr ''PASS'') (ustr ''Working directory: '' @ tmpdir c)"
    unfolding working_directory_def
    by (rule occurrences_foreign) (simp_all add: word_facts)
  also have "\<dots> = occurrences (ustr ''PASS'') (tmpdir c)"
    by (rule occurrences_skip) (simp_all add: word_facts, simp add: ustr_def)
  finally show ?thesis .
qed

lemma occurrences_too_many:
  "occurrences (ustr ''PASS'') (too_many u) = occurrences (ustr ''PASS'') (str_opt u)"
proof -
  have "too_many u = (ustr ''Too many retries loading '' @ str_opt u) @ (ustr '', bailing out'' @ [10])"
    by (simp add: too_many_def)
  then have "occurrences (ustr ''PASS'') (too_many u)
          = occurrences (ustr ''PASS'') (ustr ''Too many retries loading '' @ str_opt u)"
    using occurrences_foreign [of "ustr '', bailing out'' @ [10]" "ustr ''PASS''"
            "ustr ''Too many retries loading '' @ str_opt u"]
    by (simp add: word_facts) (simp add: ustr_def)
  also have "\<dots> = occurrences (ustr ''PASS'') (str_opt u)"
    by (rule occurrences_skip) (simp_all add: word_facts, simp add: ustr_def)
  finally show ?thesis .
qed

lemma occurrences_still_running:
  "occurrences (ustr ''PASS'') (still_running out) = occurrences (ustr ''PASS'') out"
proof -
  have "occurrences (ustr ''PASS'') (still_running out)
          = occurrences (ustr ''PASS'') (ustr ''Docker containers still running:'' @ [10] @ out)"
    unfolding still_running_def
    by (rule occurrences_foreign) (simp_all add: word_facts)
  also have "\<dots> = occurrences (ustr ''PASS'') out"
    using occurrences_skip [of "ustr ''PASS''" "ustr ''Docker containers still running:'' @ [10]" out]
    by (simp add: word_facts) (simp add: ustr_def)
  finally show ?thesis .
qed

lemma verdict_is_not_other:
  "working_directory c \<noteq> ([10] @ ustr ''PASS'') @ [10]"
  "too_many u \<noteq> ([10] @ ustr ''PASS'') @ [10]"
  "still_running out \<noteq> ([10] @ ustr ''PASS'') @ [10]"
  by (simp_all add: working_directory_def too_many_def still_running_def ustr_def)

text \<open>Every step of the script is neat, so every event of a run is tidy.\<close>

lemma tidy_simps [simp]:
  "tidy c (Print_out (m @ [10]))" "tidy c (Exec argv cwd env)" "tidy c (Popen k argv)"
  "tidy c (Act a r)" "tidy c (Script scr so)" "tidy c (Sleep_ms n)" "tidy c (Wait_exit k)"
  "tidy c (Print_err (working_directory c))" "tidy c (Print_err (too_many u))"
  "tidy c (Print_err (still_running out))" "tidy c pass_marker" "tidy c (echo line)"
  by (auto simp: tidy_def pass_marker_def echo_def)

lemma tidy_messages [simp]:
  "tidy c (Print_err (ustr ''Working directory: '' @ tmpdir c @ [10]))"
  "tidy c (Print_err (ustr ''Too many retries loading '' @ str_opt u @ ustr '', bailing out'' @ [10]))"
  "tidy c (Print_err (ustr ''Docker containers still running:'' @ 10 # out @ [10]))"
  "tidy c (Print_err (10 # ustr ''PASS'' @ [10]))"
  using tidy_simps(8) [of c] tidy_simps(9) [of c u] tidy_simps(10) [of c out] tidy_simps(11) [of c]
  by (simp_all add: working_directory_def too_many_def still_running_def pass_marker_def)

lemma neat_refl [simp]: "neat c s s"
  by (simp add: neat_def)

lemma neat_trans: "neat c a b \<Longrightarrow> neat c b d \<Longrightarrow> neat c a d"
  by (auto simp: neat_def)

lemma neat_emit [simp]: "tidy c e \<Longrightarrow> neat c s (emit e s)"
  by (simp add: neat_def emit_def)

lemma neat_answered_emit [simp]: "tidy c e \<Longrightarrow> neat c s (emit e (answered s))"
  by (simp add: neat_def emit_def answered_def)

lemma neat_print_out [simp]: "neat c s (snd (print_out t s))"
  by (simp add: print_out_def)

lemma neat_print_err: "tidy c (Print_err (t @ [10])) \<Longrightarrow> neat c s (snd (print_err t s))"
  by (simp add: print_err_def)

lemma neat_sleep [simp]: "neat c s (snd (sleep_ms n s))"
  by (simp add: sleep_ms_def)

lemma neat_check_call [simp]: "neat c s (snd (check_call w argv cwd env s))"
  by (simp add: check_call_def Let_def split: proc_result.splits)

lemma neat_check_output [simp]: "neat c s (snd (check_output w argv s))"
  by (simp add: check_output_def Let_def split: proc_result.splits)

lemma neat_act [simp]: "neat c s (snd (act w a s))"
  by (simp add: act_def Let_def)

lemma neat_driver_act [simp]: "neat c s (snd (driver_act w a s))"
  by (simp add: driver_act_def split: option.splits)

lemma neat_focus_search [simp]: "neat c s (snd (focus_search w s))"
  by (simp add: focus_search_def)

lemma neat_until_text [simp]: "neat c s (snd (until_text w sel t s))"
  by (simp add: until_text_def)

lemma neat_build [simp]: "neat c s (snd (build w c' s))"
  by (simp add: build_def)

lemma neat_field [simp]:
  "neat c s (s'\<lparr>driver := d\<rparr>) \<longleftrightarrow> neat c s s'"
  "neat c s (s'\<lparr>trace_dir := td, next_trace_id := i\<rparr>) \<longleftrightarrow> neat c s s'"
  by (simp_all add: neat_def)

lemma neat_create_driver [simp]: "neat c s (snd (create_driver w c' s))"
proof -
  obtain r s1 where a: "act w (New_driver (headless c')) s = (r, s1)"
    by (cases "act w (New_driver (headless c')) s")
  have "neat c s s1" using neat_act [of c s w "New_driver (headless c')"] a by simp
  then show ?thesis
    by (auto simp: create_driver_def a split: option.splits)
qed

lemma neat_record [simp]: "neat c s (snd (record_rr w c' s))"
proof -
  let ?argv = "[ustr ''rr'', ustr ''record'', testdir c' @ ustr ''/out/main'']"
  obtain r s1 where a: "check_call w ?argv None True s = (r, s1)"
    by (cases "check_call w ?argv None True s")
  have "neat c s s1" using neat_check_call [of c s w ?argv None True] a by simp
  then show ?thesis
    by (auto simp: record_rr_def a split: option.splits)
qed

lemma neat_open_browser_loop: "neat c s (snd (open_browser_loop w u r s))"
proof (induction w u r s rule: open_browser_loop.induct)
  case (1 w u retries s)
  show ?case
  proof (cases "retries + 1 > 100")
    case True
    then show ?thesis
      by (subst open_browser_loop.simps) (simp add: neat_print_err)
  next
    case False
    obtain r s1 where a: "driver_act w (Get u) s = (r, s1)" by (cases "driver_act w (Get u) s")
    have q1: "neat c s s1" using neat_driver_act [of c s w "Get u"] a by simp
    show ?thesis
    proof (cases r)
      case None
      then show ?thesis using False a q1
        by (subst open_browser_loop.simps) simp
    next
      case (Some e)
      show ?thesis
      proof (cases "is_WebDriverException e")
        case True
        have "neat c (snd (sleep_ms 50 s1)) (snd (open_browser_loop w u (retries + 1) (snd (sleep_ms 50 s1))))"
          using 1 [OF refl _ a [symmetric] Some True] False by simp
        then have "neat c s (snd (open_browser_loop w u (retries + 1) (snd (sleep_ms 50 s1))))"
          using q1 neat_sleep [of c s1 50] neat_trans by blast
        then show ?thesis using False a Some True
          by (subst open_browser_loop.simps) simp
      next
        case False
        then show ?thesis using \<open>\<not> retries + 1 > 100\<close> a Some q1
          by (subst open_browser_loop.simps) simp
      qed
    qed
  qed
qed

lemma neat_open_browser [simp]: "neat c s (snd (open_browser w u s))"
  by (simp add: open_browser_def neat_open_browser_loop)

lemma neat_script_succeeds [simp]: "neat c s (snd (script_succeeds w scr ex d s))"
  by (simp add: script_succeeds_def Let_def split: option.splits script_outcome.splits)

lemma neat_poll_script: "neat c s (snd (poll_script w scr ex d n s))"
proof (induction n arbitrary: s)
  case 0
  obtain r s1 where a: "script_succeeds w scr ex d s = (r, s1)" by (cases "script_succeeds w scr ex d s")
  have q1: "neat c s s1" using neat_script_succeeds [of c s w scr ex d] a by simp
  show ?case using a q1
    by (subst poll_script.simps) (auto split: sum.splits)
next
  case (Suc n)
  obtain r s1 where a: "script_succeeds w scr ex d s = (r, s1)" by (cases "script_succeeds w scr ex d s")
  have q1: "neat c s s1" using neat_script_succeeds [of c s w scr ex d] a by simp
  have q2: "neat c s (snd (poll_script w scr ex d n s1))"
    using q1 Suc.IH [of s1] neat_trans by blast
  show ?case using a q1 q2
    by (subst poll_script.simps) (auto split: sum.splits)
qed

lemma neat_until_script [simp]: "neat c s (snd (until_script w scr ex s))"
  by (simp add: until_script_def neat_poll_script)

lemma neat_check_containers [simp]: "neat c s (snd (check_containers w s))"
proof -
  obtain r s1 where a: "check_output w [ustr ''docker'', ustr ''ps'', ustr ''-aq''] s = (r, s1)"
    by (cases "check_output w [ustr ''docker'', ustr ''ps'', ustr ''-aq''] s")
  have q1: "neat c s s1" using neat_check_output [of c s w] a by (metis snd_conv)
  have q2: "neat c s1 (snd (print_err (ustr ''Docker containers still running:'' @ [10] @ strip out) s1))" for out
    by (simp add: neat_print_err)
  show ?thesis using a q1 q2 neat_trans
    by (auto simp: check_containers_def Let_def split: sum.splits)
qed

lemma neat_verify_export [simp]: "neat c s (snd (verify_export w c' s))"
proof -
  let ?argv = "[ustr ''unzip'', ustr ''-Z1'', str_opt (trace_dir s) @ ustr ''/files.user/sources.zip'']"
  obtain r s1 where a: "check_output w ?argv s = (r, s1)" by (cases "check_output w ?argv s")
  have q1: "neat c s s1" using neat_check_output [of c s w ?argv] a by simp
  show ?thesis using a q1
    by (auto simp: verify_export_def Let_def split: sum.splits)
qed

lemma neat_start_server: "step_rel (neat c) (start_server w c' )"
  unfolding step_rel_def
proof (intro allI impI)
  fix s r s'
  assume "start_server w c' s = Some (r, s')"
  then show "neat c s s'"
  proof (cases rule: start_server_cases)
    case failed
    then show ?thesis by (simp add: neat_def)
  next
    case (started td lines)
    have "list_all (tidy c) (Popen (tick s) (server_argv c' td) # map echo lines)"
      by (induction lines) simp_all
    then show ?thesis using started(5) unfolding neat_def by blast
  qed
qed

lemma neat_interrupt: "step_rel (neat c) (total (interrupt_server w))"
  by (auto simp: step_rel_def total_def interrupt_server_def split: option.splits)
     (metis neat_act snd_conv)

lemma neat_wait: "step_rel (neat c) (wait_server w)"
  by (auto simp: step_rel_def wait_server_def split: option.splits if_splits)

lemma neat_steps: "list_all (step_rel (neat c)) (steps w c)"
  by (simp add: steps_def provision_def prepare_trace_def launch_def browse_def
        scenario_source_def open_note_def write_note_def restart_def verify_persisted_def
        shutdown_def finish_def step_rel_total neat_start_server neat_interrupt neat_wait
        neat_print_err)

lemma run_tidy:
  assumes "script w c = Some (r, s)"
  shows "list_all (tidy c) (log s)"
proof -
  have "neat c initial s"
    using assms unfolding script_def
    by (rule run_steps_rel [where R = "neat c" and fs = "steps w c", rotated 3])
       (auto intro: neat_trans neat_steps)
  then show ?thesis by (simp add: neat_def initial_def)
qed

text \<open>In a tidy log the occurrences of \<open>PASS\<close> are counted event by event.\<close>

lemma stderr_text_simps [simp]:
  "stderr_text [] = []" "stderr_text (e # l) = err_text e @ stderr_text l"
  "stderr_text (l @ m) = stderr_text l @ stderr_text m"
  by (simp_all add: stderr_text_def)

lemma printed_text_simps [simp]:
  "printed_text [] = []" "printed_text (e # l) = any_text e @ printed_text l"
  "printed_text (l @ m) = printed_text l @ printed_text m"
  by (simp_all add: printed_text_def)

lemma occurrences_message:
  "occurrences (ustr ''PASS'') ((m @ [10]) @ rest)
     = occurrences (ustr ''PASS'') (m @ [10]) + occurrences (ustr ''PASS'') rest"
  using occurrences_line [of "ustr ''PASS''" m rest] occurrences_line [of "ustr ''PASS''" m "[]"]
  by (simp add: word_facts)

lemma tidy_cases:
  assumes "tidy c e"
  obtains (wd) "e = Print_err (working_directory c)"
    | (too) u where "e = Print_err (too_many u)"
    | (still) out where "e = Print_err (still_running out)"
    | (verdict) "e = pass_marker"
    | (out) m where "e = Print_out (m @ [10])"
    | (other) "err_text e = []" "any_text e = []" "e \<noteq> pass_marker"
  using assms by (cases e) (auto simp: tidy_def err_text_def any_text_def pass_marker_def)

lemma occurrences_err:
  assumes "tidy c e"
  shows "occurrences (ustr ''PASS'') (err_text e @ rest)
           = occurrences (ustr ''PASS'') (err_text e) + occurrences (ustr ''PASS'') rest"
  using assms
proof (cases rule: tidy_cases)
  case wd
  then show ?thesis
    by (simp only: err_text_def event.case working_directory_def occurrences_message)
next
  case (too u)
  then show ?thesis
    by (simp only: err_text_def event.case too_many_def occurrences_message)
next
  case (still out)
  then show ?thesis
    by (simp only: err_text_def event.case still_running_def occurrences_message)
next
  case verdict
  then show ?thesis
    by (simp only: err_text_def event.case pass_marker_def occurrences_message)
next
  case (out m)
  then show ?thesis by (simp add: err_text_def word_facts)
next
  case other
  then show ?thesis by (simp add: word_facts)
qed

lemma occurrences_any:
  assumes "tidy c e"
  shows "occurrences (ustr ''PASS'') (any_text e @ rest)
           = occurrences (ustr ''PASS'') (any_text e) + occurrences (ustr ''PASS'') rest"
  using assms
proof (cases rule: tidy_cases)
  case wd
  then show ?thesis
    by (simp only: any_text_def event.case working_directory_def occurrences_message)
next
  case (too u)
  then show ?thesis
    by (simp only: any_text_def event.case too_many_def occurrences_message)
next
  case (still out)
  then show ?thesis
    by (simp only: any_text_def event.case still_running_def occurrences_message)
next
  case verdict
  then show ?thesis
    by (simp only: any_text_def event.case pass_marker_def occurrences_message)
next
  case (out m)
  then show ?thesis
    by (simp only: any_text_def event.case occurrences_message)
next
  case other
  then show ?thesis by (simp add: word_facts)
qed

lemma clean_err_Cons: "clean_err c (e # l) \<Longrightarrow> clean_err c l"
  by (auto simp: clean_err_def)

lemma clean_out_Cons: "clean_out (e # l) \<Longrightarrow> clean_out l"
  by (auto simp: clean_out_def)

lemma err_event_count:
  assumes "tidy c e" "clean_err c (e # l)"
  shows "occurrences (ustr ''PASS'') (err_text e) = (if e = pass_marker then 1 else 0)"
  using assms(1)
proof (cases rule: tidy_cases)
  case wd
  then show ?thesis using assms(2) verdict_is_not_other(1) [of c]
    by (simp add: err_text_def occurrences_working_directory clean_err_def pass_marker_def)
next
  case (too u)
  then show ?thesis using assms(2) verdict_is_not_other(2) [of u]
    by (simp add: err_text_def occurrences_too_many clean_err_def pass_marker_def)
next
  case (still out)
  then show ?thesis using assms(2) verdict_is_not_other(3) [of out]
    by (simp add: err_text_def occurrences_still_running clean_err_def pass_marker_def)
next
  case verdict
  then show ?thesis using occurrences_verdict by (simp add: err_text_def pass_marker_def)
next
  case (out m)
  then show ?thesis by (simp add: err_text_def pass_marker_def word_facts)
next
  case other
  then show ?thesis by (simp add: word_facts)
qed

lemma stderr_count:
  "list_all (tidy c) l \<Longrightarrow> clean_err c l \<Longrightarrow>
   occurrences (ustr ''PASS'') (stderr_text l) = count_list l pass_marker"
proof (induction l)
  case Nil
  then show ?case by (simp add: word_facts)
next
  case (Cons e l)
  have "occurrences (ustr ''PASS'') (stderr_text (e # l))
          = occurrences (ustr ''PASS'') (err_text e) + occurrences (ustr ''PASS'') (stderr_text l)"
    using Cons.prems(1) occurrences_err [of c e] by simp
  then show ?case
    using Cons err_event_count [of c e l] clean_err_Cons [of c e l] by simp
qed

lemma any_event_count:
  assumes "tidy c e" "clean_err c (e # l)" "clean_out (e # l)"
  shows "occurrences (ustr ''PASS'') (any_text e) = (if e = pass_marker then 1 else 0)"
proof (cases e)
  case (Print_out t)
  then show ?thesis using assms(3) by (simp add: any_text_def clean_out_def pass_marker_def)
next
  case (Print_err t)
  then have "any_text e = err_text e" by (simp add: any_text_def err_text_def)
  then show ?thesis using err_event_count [OF assms(1,2)] by simp
qed (simp_all add: any_text_def pass_marker_def word_facts)

lemma printed_count:
  "list_all (tidy c) l \<Longrightarrow> clean_err c l \<Longrightarrow> clean_out l \<Longrightarrow>
   occurrences (ustr ''PASS'') (printed_text l) = count_list l pass_marker"
proof (induction l)
  case Nil
  then show ?case by (simp add: word_facts)
next
  case (Cons e l)
  have "occurrences (ustr ''PASS'') (printed_text (e # l))
          = occurrences (ustr ''PASS'') (any_text e) + occurrences (ustr ''PASS'') (printed_text l)"
    using Cons.prems(1) occurrences_any [of c e] by simp
  then show ?case
    using Cons any_event_count [of c e l] clean_err_Cons [of c e l] clean_out_Cons [of e l] by simp
qed

lemma stderr_final: "stderr_text (final_events c td) = ([10] @ ustr ''PASS'') @ [10]"
  by (simp add: final_events_def err_text_def pass_marker_def)

lemma err_text_simps [simp]:
  "err_text (Print_err t) = t" "err_text (Print_out t) = []" "err_text (Exec argv cwd env) = []"
  "err_text (Popen k argv) = []" "err_text (Act a r) = []" "err_text (Script scr so) = []"
  "err_text (Sleep_ms n) = []" "err_text (Wait_exit k) = []"
  "err_text (echo line) = []" "err_text pass_marker = 10 # ustr ''PASS'' @ [10]"
  by (simp_all add: err_text_def echo_def pass_marker_def)

lemma any_text_simps [simp]:
  "any_text (Print_err t) = t" "any_text (Print_out t) = t" "any_text (Exec argv cwd env) = []"
  "any_text (Popen k argv) = []" "any_text (Act a r) = []" "any_text (Script scr so) = []"
  "any_text (Sleep_ms n) = []" "any_text (Wait_exit k) = []"
  by (simp_all add: any_text_def)

lemma no_occurrence [simp]: "occurrences (ustr ''PASS'') [] = 0"
  by (simp add: word_facts)

lemma clean_by_events:
  assumes "occurrences (ustr ''PASS'') (tmpdir c) = 0"
    "list_all (\<lambda>e. e = pass_marker \<or> occurrences (ustr ''PASS'') (any_text e) = 0) l"
  shows "clean_err c l \<and> clean_out l"
proof -
  have a: "e = pass_marker \<or> occurrences (ustr ''PASS'') (any_text e) = 0" if "e \<in> set l" for e
    using assms(2) that by (simp add: list_all_iff)
  have "occurrences (ustr ''PASS'') (str_opt u) = 0" if "Print_err (too_many u) \<in> set l" for u
    using a [OF that] verdict_is_not_other(2) [of u] occurrences_too_many [of u]
    by (simp add: pass_marker_def)
  moreover have "occurrences (ustr ''PASS'') out = 0" if "Print_err (still_running out) \<in> set l" for out
    using a [OF that] verdict_is_not_other(3) [of out] occurrences_still_running [of out]
    by (simp add: pass_marker_def)
  moreover have "occurrences (ustr ''PASS'') t = 0" if "Print_out t \<in> set l" for t
    using a [OF that] by (simp add: pass_marker_def)
  ultimately show ?thesis using assms(1) by (simp add: clean_err_def clean_out_def)
qed

text \<open>The events of a navigation that is refused until the budget is spent.\<close>

lemma loop_refused:
  "driver s = Some d \<Longrightarrow> r + k = 100 \<Longrightarrow>
   (\<forall>i<k. raises w (tick s + i) (Get u) = Some WebDriverException) \<Longrightarrow>
   open_browser_loop w u r s =
     (Some (CustomException (ustr ''Too many retries'')),
      s\<lparr>tick := tick s + k,
        log := log s @ concat (replicate k [Act (Get u) (Some WebDriverException), Sleep_ms 50])
                 @ [Print_err (too_many u)]\<rparr>)"
proof (induction k arbitrary: r s)
  case 0
  then show ?case by (simp add: budget_spent emit_def too_many_def)
next
  case (Suc k)
  let ?s = "emit (Sleep_ms 50) (emit (Act (Get u) (Some WebDriverException)) (answered s))"
  have e: "raises w (tick s) (Get u) = Some WebDriverException" using Suc.prems(3) by fastforce
  have step: "open_browser_loop w u r s = open_browser_loop w u (Suc r) ?s"
    using Suc.prems(1,2) e by (simp add: attempt_refused)
  have d: "driver ?s = Some d" using Suc.prems(1) by (simp add: emit_def answered_def)
  have t: "tick ?s = Suc (tick s)" by (simp add: emit_def answered_def)
  have rest: "\<forall>i<k. raises w (tick ?s + i) (Get u) = Some WebDriverException"
    using Suc.prems(3) t by fastforce
  have "Suc r + k = 100" using Suc.prems(2) by simp
  from Suc.IH [OF d this rest] show ?case
    by (simp add: step emit_def answered_def)
qed

lemma refused_silent:
  "stderr_text (concat (replicate k [Act a r, Sleep_ms n])) = []"
  by (induction k) simp_all

lemma open_refused:
  "driver s = Some d \<Longrightarrow> (\<forall>i<100. raises w (tick s + i) (Get u) = Some WebDriverException) \<Longrightarrow>
   open_browser w u s =
     (Some (CustomException (ustr ''Too many retries'')),
      s\<lparr>tick := tick s + 100,
        log := log s @ concat (replicate 100 [Act (Get u) (Some WebDriverException), Sleep_ms 50])
                 @ [Print_err (too_many u)]\<rparr>)"
  using loop_refused [of s d 0 100 w u] by (simp add: open_browser_def)

subsection \<open>Concrete runs\<close>

lemma ustr_inject [simp]: "ustr a = ustr b \<longleftrightarrow> a = b"
proof -
  have "inj (of_char :: char \<Rightarrow> nat)" by (rule inj_of_char)
  then show ?thesis by (simp add: ustr_def inj_map_eq_map)
qed

lemma ustr_empty [simp]: "ustr a = [] \<longleftrightarrow> a = []" "[] = ustr a \<longleftrightarrow> a = []"
  by (auto simp: ustr_def)

lemma c0_simps [simp]: "tmpdir c0 = ustr ''/tmp/t''" "no_pull c0" "headless c0"
  by (simp_all add: c0_def)

lemma trace0 [simp]: "ustr ''/tmp/t'' @ ustr ''/main-'' @ str_int 0 = ustr ''/tmp/t/main-0''"
  by (simp add: ustr_def str_int_def digits.simps)

lemma scripts_differ [simp]: "value_script \<noteq> focus_script"
  by (simp add: value_script_def focus_script_def)

lemma strip_Nil [simp]: "strip [] = []"
  by (simp add: strip_def)

lemma poll_hit:
  "script_result w (tick s) scr = Returned v \<Longrightarrow> py_eq v expected \<Longrightarrow>
   poll_script w scr expected (Some d) n s = (None, emit (Script scr (Returned v)) (answered s))"
  by (subst poll_script.simps) (simp add: script_succeeds_def Let_def)

lemma open_at_once:
  "driver s = Some d \<Longrightarrow> raises w (tick s) (Get u) = None \<Longrightarrow>
   open_browser w u s = (None, emit (Act (Get u) None) (answered s))"
  by (simp add: open_browser_def attempt_accepted)

lemma start_calm:
  "trace_dir s = Some td \<Longrightarrow>
   popen w (tick s) (server_argv c td)
     = Some (LCons (ustr ''Appserver launched at http://127.0.0.1:3000'' @ [10]) LNil) \<Longrightarrow>
   start_server w c s =
     Some (None, s\<lparr>tick := Suc (tick s), server := Some (tick s),
                   url := Some (ustr ''http://127.0.0.1:3000''),
                   log := log s @ [Popen (tick s) (server_argv c td),
                                   echo (ustr ''Appserver launched at http://127.0.0.1:3000'' @ [10])]\<rparr>)"
  using start_server_scan [of "[]" s td w c] calm_line calm_last
  by (simp add: scan_url emit_def)

lemma listing_members:
  "expected_member c0 \<in> set (splitlines listing)"
  "testdir_alias c0 @ ustr ''/out/message.h'' \<notin> set (splitlines listing)"
  "expected_member c0 \<notin> set (splitlines alias_listing)"
  "testdir_alias c0 @ ustr ''/out/message.h'' \<in> set (splitlines alias_listing)"
  by (simp_all add: expected_member_def testdir_alias_def tmpdir_alias_def listing_def
        alias_listing_def splitlines_def ustr_def is_linebreak_def)

lemma verify_passes:
  "proc w (tick s) (unzip_argv (trace_dir s)) = Exited 0 out \<Longrightarrow>
   expected_member c \<in> set (splitlines out) \<Longrightarrow>
   verify_export w c s = (None, emit (Exec (unzip_argv (trace_dir s)) None False) (answered s))"
  by (simp add: verify_export_def check_output_def unzip_argv_def Let_def)

lemmas run_defs = script_def steps_def provision_def prepare_trace_def launch_def browse_def
  scenario_source_def open_note_def write_note_def restart_def verify_persisted_def
  shutdown_def finish_def
  check_call_def check_output_def act_def driver_act_def print_out_def print_err_def
  sleep_ms_def emit_def answered_def total_def build_def record_rr_def create_driver_def
  focus_search_def until_script_def until_text_def
  interrupt_server_def wait_server_def check_containers_def
  calm_def initial_def Let_def pernosco_cmd_def unzip_argv_def
  poll_hit open_at_once start_calm verify_passes listing_members py_eq_def

lemma happy_passes:
  "\<exists>s. script happy c0 = Some (None, s)
       \<and> filter lifecycle (log s) = full 8 41 (server_argv c0 (ustr ''/tmp/t/main-0''))
       \<and> tick s = 50 \<and> trace_dir s = Some (ustr ''/tmp/t/main-0'')"
  by (simp add: run_defs happy_def full_def)

lemma no_browser_aborts:
  "\<exists>s. script no_browser c0 = Some (Some WebDriverException, s)
       \<and> filter lifecycle (log s) = [Popen 8 (server_argv c0 (ustr ''/tmp/t/main-0''))]"
  by (simp add: run_defs no_browser_def)

lemma c_pass_simps [simp]: "tmpdir c_pass = ustr ''/tmp/PASS''" "no_pull c_pass" "headless c_pass"
  by (simp_all add: c_pass_def)

lemma listing_pass_member: "expected_member c_pass \<in> set (splitlines listing_pass)"
  by (simp add: expected_member_def listing_pass_def splitlines_def ustr_def is_linebreak_def)

lemma strip_pass: "strip (ustr ''PASS'' @ [10]) = ustr ''PASS''"
  by (simp add: strip_def ustr_def is_space_def)

lemma pass_url_line: "url_line (ustr ''Appserver launched at http://PASS:3000'' @ [10])"
  by (simp add: url_line_def split_ws_def ustr_def is_space_def startswith_def)

lemma pass_url_last:
  "last (split_ws (ustr ''Appserver launched at http://PASS:3000'' @ [10])) = ustr ''http://PASS:3000''"
  by (simp add: split_ws_def ustr_def is_space_def)

lemma start_unreachable:
  "trace_dir s = Some td \<Longrightarrow>
   popen w (tick s) (server_argv c td)
     = Some (LCons (ustr ''Appserver launched at http://PASS:3000'' @ [10]) LNil) \<Longrightarrow>
   start_server w c s =
     Some (None, s\<lparr>tick := Suc (tick s), server := Some (tick s),
                   url := Some (ustr ''http://PASS:3000''),
                   log := log s @ [Popen (tick s) (server_argv c td),
                                   echo (ustr ''Appserver launched at http://PASS:3000'' @ [10])]\<rparr>)"
  using start_server_scan [of "[]" s td w c] pass_url_line pass_url_last
  by (simp add: scan_url emit_def)

lemma clone_fails_run:
  "\<exists>s. script tracer_fails c_pass = Some (Some (CalledProcessError 1), s)
       \<and> stderr_text (log s) = ustr ''Working directory: /tmp/PASS'' @ [10]"
  apply (simp add: run_defs tracer_fails_def)
  apply (simp add: ustr_def)
  done

lemma unreachable_run:
  "\<exists>s. script unreachable c0 = Some (Some (CustomException (ustr ''Too many retries'')), s)
       \<and> stderr_text (log s)
           = ustr ''Working directory: /tmp/t'' @ [10]
             @ ustr ''Too many retries loading http://PASS:3000, bailing out'' @ [10]"
  apply (simp add: run_defs unreachable_def start_unreachable open_refused refused_silent
           too_many_def)
  apply (simp add: ustr_def str_opt_def)
  done

lemma happy_texts:
  "\<exists>s. script happy c0 = Some (None, s)
       \<and> list_all (\<lambda>e. e = pass_marker \<or> occurrences (ustr ''PASS'') (any_text e) = 0) (log s)"
  apply (simp add: run_defs happy_def)
  apply (simp add: pass_marker_def ustr_def startswith_def echo_def str_opt_def)
  done

lemma no_browser_texts:
  "\<exists>s. script no_browser c0 = Some (Some WebDriverException, s)
       \<and> list_all (\<lambda>e. e = pass_marker \<or> occurrences (ustr ''PASS'') (any_text e) = 0) (log s)"
  apply (simp add: run_defs no_browser_def)
  apply (simp add: pass_marker_def ustr_def startswith_def echo_def str_opt_def)
  done

lemma happy_pass_run:
  "\<exists>s. script happy_pass c_pass = Some (None, s)
       \<and> stderr_text (log s)
           = ustr ''Working directory: /tmp/PASS'' @ [10] @ [10] @ ustr ''PASS'' @ [10]"
  apply (simp add: run_defs happy_def happy_pass_def listing_pass_member)
  apply (simp add: ustr_def)
  done

lemma containers_left_run:
  "\<exists>s. script containers_left c0 = Some (Some AssertionError, s)
       \<and> stderr_text (log s)
           = ustr ''Working directory: /tmp/t'' @ [10]
             @ ustr ''Docker containers still running:'' @ [10] @ ustr ''PASS'' @ [10]"
  apply (simp add: run_defs happy_def containers_left_def strip_pass)
  apply (simp add: ustr_def)
  done

lemma texts_with_marker:
  "occurrences (ustr ''PASS'') (ustr ''Working directory: /tmp/PASS'' @ [10]) = 1"
  "occurrences (ustr ''PASS'')
     (ustr ''Working directory: /tmp/PASS'' @ [10] @ [10] @ ustr ''PASS'' @ [10]) = 2"
  "occurrences (ustr ''PASS'')
     (ustr ''Working directory: /tmp/t'' @ [10]
      @ ustr ''Docker containers still running:'' @ [10] @ ustr ''PASS'' @ [10]) = 1"
  "occurrences (ustr ''PASS'')
     (ustr ''Working directory: /tmp/t'' @ [10]
      @ ustr ''Too many retries loading http://PASS:3000, bailing out'' @ [10]) = 1"
  by (simp_all add: ustr_def startswith_def)

subsection \<open>The claims about whole runs\<close>

text \<open>
  C6, amended. In every run that passes, every server that was started is sent the
  interrupt signal once and its exit is waited for once, the wait following the
  interrupt. In every run, passing or not, a started server is interrupted at most once
  and waited for at most as often as it was interrupted.
\<close>

theorem shutdown_once:
  assumes "script w c = Some (r, s)" "Popen k a \<in> set (log s)"
  shows "interrupts k (log s) \<le> 1 \<and> waits k (log s) \<le> interrupts k (log s)
       \<and> (r = None \<longrightarrow> interrupts k (log s) = 1 \<and> waits k (log s) = 1
                      \<and> shutdowns k (filter lifecycle (log s)) = 1)"
proof -
  from lifecycle_of_run [OF assms(1)] obtain n where n: "n \<le> 6" "r = None \<longrightarrow> n = 6" "at_stage c n s"
    by (auto simp: reached_def split: if_splits)
  then obtain k1 k2 td where st: "k1 < k2"
      "filter lifecycle (log s) = take n (full k1 k2 (server_argv c td))"
    by (auto simp: at_stage_def)
  have "Popen k a \<in> set (filter lifecycle (log s))" using assms(2) by simp
  then have p: "Popen k a \<in> set (take n (full k1 k2 (server_argv c td)))" using st(2) by simp
  have i: "interrupts k (log s) = count_list (take n (full k1 k2 (server_argv c td))) (Act (Kill k) None)"
    using count_filter_lifecycle [of "Act (Kill k) None" "log s"] st(2) by (simp add: interrupts_def)
  have w: "waits k (log s) = count_list (take n (full k1 k2 (server_argv c td))) (Wait_exit k)"
    using count_filter_lifecycle [of "Wait_exit k" "log s"] st(2) by (simp add: waits_def)
  show ?thesis
    using counts_of_prefix [OF st(1) n(1) p] n(2) by (simp add: i w st(2))
qed

theorem shutdown_once_witness:
  "\<exists>s. script happy c0 = Some (None, s)
       \<and> Popen 8 (server_argv c0 (ustr ''/tmp/t/main-0'')) \<in> set (log s)
       \<and> interrupts 8 (log s) = 1 \<and> waits 8 (log s) = 1
       \<and> shutdowns 8 (filter lifecycle (log s)) = 1"
proof -
  from happy_passes obtain s where s: "script happy c0 = Some (None, s)"
      "filter lifecycle (log s) = full 8 41 (server_argv c0 (ustr ''/tmp/t/main-0''))"
    by blast
  have "Popen 8 (server_argv c0 (ustr ''/tmp/t/main-0'')) \<in> set (filter lifecycle (log s))"
    by (simp add: s(2) full_def)
  then have p: "Popen 8 (server_argv c0 (ustr ''/tmp/t/main-0'')) \<in> set (log s)" by simp
  show ?thesis using shutdown_once [OF s(1) p] s(1) p by auto
qed

text \<open>
  C6 as stated fails: when the browser cannot be started, the run aborts after the server
  with handle 8 was started, and that server is neither interrupted nor waited for.
\<close>

theorem shutdown_once_counterexample:
  "map_option fst (script no_browser c0) = Some (Some WebDriverException)
   \<and> map_option (filter lifecycle \<circ> log \<circ> snd) (script no_browser c0)
       = Some [Popen 8 (server_argv c0 (ustr ''/tmp/t/main-0''))]"
  using no_browser_aborts by auto

text \<open>
  C7, amended. In every run the statement that writes the verdict is executed once when
  the run passes and never when it aborts; in a run that passes it is the last event,
  right after the container check, the export, the listing of the archive and the unmount,
  in this order, and the verdict is the last line on the diagnostic stream. When
  \<open>PASS\<close> occurs neither in the name of the working directory nor in an address or an
  answer of \<open>docker ps\<close> that a message of the run quotes, the text that the script has
  written to the diagnostic stream holds \<open>PASS\<close> exactly once in a run that passes and
  not at all in a run that aborts; when moreover no line printed on the standard output
  holds \<open>PASS\<close>, the same is true of the two streams together.
\<close>

theorem verdict_last:
  "script w c = Some (r, s) \<Longrightarrow>
   count_list (log s) pass_marker = (if r = None then 1 else 0)
   \<and> (r = None \<longrightarrow> (\<exists>l. log s = l @ final_events c (trace_dir s))
                  \<and> (\<exists>x. stderr_text (log s) = x @ ([10] @ ustr ''PASS'') @ [10]))
   \<and> (clean_err c (log s) \<longrightarrow>
        occurrences (ustr ''PASS'') (stderr_text (log s)) = (if r = None then 1 else 0)
        \<and> (clean_out (log s) \<longrightarrow>
             occurrences (ustr ''PASS'') (printed_text (log s)) = (if r = None then 1 else 0)))"
proof -
  assume a: "script w c = Some (r, s)"
  have last: "(\<exists>l. log s = l @ final_events c (trace_dir s))
              \<and> (\<exists>x. stderr_text (log s) = x @ ([10] @ ustr ''PASS'') @ [10])" if "r = None"
  proof -
    from a that obtain s0 where
      "s = s0\<lparr>tick := tick s0 + 4, log := log s0 @ final_events c (trace_dir s0)\<rparr>"
      by (auto elim: passed_run)
    then have l: "log s = log s0 @ final_events c (trace_dir s)" by simp
    have "stderr_text (log s0 @ final_events c (trace_dir s))
            = stderr_text (log s0) @ ([10] @ ustr ''PASS'') @ [10]"
      by (simp only: stderr_text_simps(3) stderr_final)
    then have "stderr_text (log s) = stderr_text (log s0) @ ([10] @ ustr ''PASS'') @ [10]"
      by (simp only: l)
    then show ?thesis using l by (intro conjI exI)
  qed
  have n: "count_list (log s) pass_marker = (if r = None then 1 else 0)"
    using marker_count [OF a] .
  have t: "list_all (tidy c) (log s)" using run_tidy [OF a] .
  have e: "occurrences (ustr ''PASS'') (stderr_text (log s)) = (if r = None then 1 else 0)"
    if "clean_err c (log s)"
    using stderr_count [OF t that] n by (rule trans)
  have p: "occurrences (ustr ''PASS'') (printed_text (log s)) = (if r = None then 1 else 0)"
    if "clean_err c (log s)" "clean_out (log s)"
    using printed_count [OF t that] n by (rule trans)
  from last n e p show ?thesis by blast
qed

theorem verdict_last_witness:
  "(\<exists>s. script happy c0 = Some (None, s) \<and> clean_err c0 (log s) \<and> clean_out (log s)
        \<and> count_list (log s) pass_marker = 1
        \<and> (\<exists>l. log s = l @ final_events c0 (trace_dir s))
        \<and> (\<exists>x. stderr_text (log s) = x @ ([10] @ ustr ''PASS'') @ [10])
        \<and> occurrences (ustr ''PASS'') (stderr_text (log s)) = 1
        \<and> occurrences (ustr ''PASS'') (printed_text (log s)) = 1)
   \<and> (\<exists>s. script no_browser c0 = Some (Some WebDriverException, s)
        \<and> clean_err c0 (log s) \<and> clean_out (log s)
        \<and> count_list (log s) pass_marker = 0
        \<and> occurrences (ustr ''PASS'') (stderr_text (log s)) = 0
        \<and> occurrences (ustr ''PASS'') (printed_text (log s)) = 0)"
proof -
  have d: "occurrences (ustr ''PASS'') (tmpdir c0) = 0"
    by (simp add: ustr_def startswith_def)
  from happy_texts obtain s where s: "script happy c0 = Some (None, s)"
      "list_all (\<lambda>e. e = pass_marker \<or> occurrences (ustr ''PASS'') (any_text e) = 0) (log s)"
    by blast
  from no_browser_texts obtain s' where s': "script no_browser c0 = Some (Some WebDriverException, s')"
      "list_all (\<lambda>e. e = pass_marker \<or> occurrences (ustr ''PASS'') (any_text e) = 0) (log s')"
    by blast
  have c: "clean_err c0 (log s)" "clean_out (log s)" using clean_by_events [OF d s(2)] by simp_all
  have c': "clean_err c0 (log s')" "clean_out (log s')" using clean_by_events [OF d s'(2)] by simp_all
  have a: "\<exists>s. script happy c0 = Some (None, s) \<and> clean_err c0 (log s) \<and> clean_out (log s)
        \<and> count_list (log s) pass_marker = 1
        \<and> (\<exists>l. log s = l @ final_events c0 (trace_dir s))
        \<and> (\<exists>x. stderr_text (log s) = x @ ([10] @ ustr ''PASS'') @ [10])
        \<and> occurrences (ustr ''PASS'') (stderr_text (log s)) = 1
        \<and> occurrences (ustr ''PASS'') (printed_text (log s)) = 1"
    using verdict_last [OF s(1)] s(1) c by (intro exI [of _ s]) simp
  have b: "\<exists>s. script no_browser c0 = Some (Some WebDriverException, s)
        \<and> clean_err c0 (log s) \<and> clean_out (log s)
        \<and> count_list (log s) pass_marker = 0
        \<and> occurrences (ustr ''PASS'') (stderr_text (log s)) = 0
        \<and> occurrences (ustr ''PASS'') (printed_text (log s)) = 0"
    using verdict_last [OF s'(1)] s'(1) c' by (intro exI [of _ s']) simp
  from a b show ?thesis by (rule conjI)
qed

text \<open>
  C7 as stated fails. With the working directory \<open>/tmp/PASS\<close>, a run that aborts at
  \<open>git clone\<close> has written \<open>PASS\<close> to the diagnostic stream once, in the message of
  line 49, and a run that passes has written it twice. With the working directory
  \<open>/tmp/t\<close>, a run in which \<open>docker ps -aq\<close> answers \<open>PASS\<close> aborts with
  \<open>AssertionError\<close> and the diagnostic stream ends with the line \<open>PASS\<close>; and a run
  whose server announces \<open>http://PASS:3000\<close> and refuses every navigation aborts with
  \<open>PASS\<close> in the message of line 87.
\<close>

theorem verdict_last_counterexample:
  "map_option fst (script tracer_fails c_pass) = Some (Some (CalledProcessError 1))
   \<and> map_option (stderr_text \<circ> log \<circ> snd) (script tracer_fails c_pass)
       = Some (ustr ''Working directory: /tmp/PASS'' @ [10])
   \<and> map_option (occurrences (ustr ''PASS'') \<circ> stderr_text \<circ> log \<circ> snd)
        (script tracer_fails c_pass) = Some 1
   \<and> map_option fst (script happy_pass c_pass) = Some None
   \<and> map_option (stderr_text \<circ> log \<circ> snd) (script happy_pass c_pass)
       = Some (ustr ''Working directory: /tmp/PASS'' @ [10] @ [10] @ ustr ''PASS'' @ [10])
   \<and> map_option (occurrences (ustr ''PASS'') \<circ> stderr_text \<circ> log \<circ> snd)
        (script happy_pass c_pass) = Some 2
   \<and> map_option fst (script containers_left c0) = Some (Some AssertionError)
   \<and> map_option (stderr_text \<circ> log \<circ> snd) (script containers_left c0)
       = Some (ustr ''Working directory: /tmp/t'' @ [10]
               @ ustr ''Docker containers still running:'' @ [10] @ ustr ''PASS'' @ [10])
   \<and> map_option (occurrences (ustr ''PASS'') \<circ> stderr_text \<circ> log \<circ> snd)
        (script containers_left c0) = Some 1
   \<and> map_option fst (script unreachable c0)
       = Some (Some (CustomException (ustr ''Too many retries'')))
   \<and> map_option (stderr_text \<circ> log \<circ> snd) (script unreachable c0)
       = Some (ustr ''Working directory: /tmp/t'' @ [10]
               @ ustr ''Too many retries loading http://PASS:3000, bailing out'' @ [10])
   \<and> map_option (occurrences (ustr ''PASS'') \<circ> stderr_text \<circ> log \<circ> snd)
        (script unreachable c0) = Some 1"
proof -
  from clone_fails_run obtain s1 where
    s1: "script tracer_fails c_pass = Some (Some (CalledProcessError 1), s1)"
      "stderr_text (log s1) = ustr ''Working directory: /tmp/PASS'' @ [10]"
    by blast
  from happy_pass_run obtain s2 where
    s2: "script happy_pass c_pass = Some (None, s2)"
      "stderr_text (log s2) = ustr ''Working directory: /tmp/PASS'' @ [10] @ [10] @ ustr ''PASS'' @ [10]"
    by blast
  from containers_left_run obtain s3 where
    s3: "script containers_left c0 = Some (Some AssertionError, s3)"
      "stderr_text (log s3) = ustr ''Working directory: /tmp/t'' @ [10]
             @ ustr ''Docker containers still running:'' @ [10] @ ustr ''PASS'' @ [10]"
    by blast
  from unreachable_run obtain s4 where
    s4: "script unreachable c0 = Some (Some (CustomException (ustr ''Too many retries'')), s4)"
      "stderr_text (log s4) = ustr ''Working directory: /tmp/t'' @ [10]
             @ ustr ''Too many retries loading http://PASS:3000, bailing out'' @ [10]"
    by blast
  show ?thesis
    by (simp only: s1 s2 s3 s4 option.map fst_conv snd_conv comp_apply texts_with_marker
          simp_thms)
qed

text \<open>
  C2, amended. In every run that passes, the listing of
  \<open><trace>/files.user/sources.zip\<close> (the answer to the last call but one) holds the path
  \<open><root>/pernosco-submit-test/out/message.h\<close>, under the working directory and not under
  its alias; and when the listing does not hold that path, the step raises
  \<open>AssertionError\<close>.
\<close>

theorem export_listing:
  "(script w c = Some (None, s) \<longrightarrow>
      (\<exists>out. proc w (tick s - 2) (unzip_argv (trace_dir s)) = Exited 0 out
             \<and> expected_member c \<in> set (splitlines out)))
   \<and> (proc w (tick s0) (unzip_argv (trace_dir s0)) = Exited 0 out0
        \<and> expected_member c \<notin> set (splitlines out0)
      \<longrightarrow> fst (verify_export w c s0) = Some AssertionError)"
proof (intro conjI impI)
  assume "script w c = Some (None, s)"
  then obtain s1 where s1: "s = s1\<lparr>tick := tick s1 + 4, log := log s1 @ final_events c (trace_dir s1)\<rparr>"
      "\<exists>out. proc w (tick s1 + 2) (unzip_argv (trace_dir s1)) = Exited 0 out
           \<and> expected_member c \<in> set (splitlines out)"
    by (auto elim: passed_run)
  have "tick s - 2 = tick s1 + 2" "trace_dir s = trace_dir s1" using s1(1) by simp_all
  then show "\<exists>out. proc w (tick s - 2) (unzip_argv (trace_dir s)) = Exited 0 out
             \<and> expected_member c \<in> set (splitlines out)"
    using s1(2) by simp
next
  assume "proc w (tick s0) (unzip_argv (trace_dir s0)) = Exited 0 out0
        \<and> expected_member c \<notin> set (splitlines out0)"
  then show "fst (verify_export w c s0) = Some AssertionError"
    by (simp add: verify_export_def check_output_def unzip_argv_def Let_def)
qed

theorem export_listing_witness:
  "(\<exists>s out. script happy c0 = Some (None, s)
        \<and> proc happy (tick s - 2) (unzip_argv (trace_dir s)) = Exited 0 out
        \<and> expected_member c0 \<in> set (splitlines out))
   \<and> fst (verify_export alias_only c0 recorded) = Some AssertionError"
proof -
  from happy_passes obtain s where s: "script happy c0 = Some (None, s)" by blast
  have a: "proc alias_only (tick recorded) (unzip_argv (trace_dir recorded)) = Exited 0 alias_listing
           \<and> expected_member c0 \<notin> set (splitlines alias_listing)"
    by (simp add: alias_only_def calm_def listing_members)
  show ?thesis
    using export_listing [where w = happy and c = c0 and s = s] s
          export_listing [where w = alias_only and c = c0 and ?s0.0 = recorded
                            and ?out0.0 = alias_listing] a
    by auto
qed

text \<open>
  C2 as stated fails: a run passes although the listing lacks the path under the alias,
  and a listing that holds the path under the alias makes the assertion fail.
\<close>

theorem export_listing_counterexample:
  "map_option fst (script happy c0) = Some None
   \<and> proc happy 48 (unzip_argv (Some (ustr ''/tmp/t/main-0''))) = Exited 0 listing
   \<and> testdir_alias c0 @ ustr ''/out/message.h'' \<notin> set (splitlines listing)
   \<and> proc alias_only 0 (unzip_argv (Some (ustr ''/tmp/t/main-0''))) = Exited 0 alias_listing
   \<and> testdir_alias c0 @ ustr ''/out/message.h'' \<in> set (splitlines alias_listing)
   \<and> fst (verify_export alias_only c0 recorded) = Some AssertionError"
proof -
  from happy_passes have "map_option fst (script happy c0) = Some None" by auto
  moreover have "proc happy 48 (unzip_argv (Some (ustr ''/tmp/t/main-0''))) = Exited 0 listing"
    by (simp add: happy_def unzip_argv_def)
  moreover have "fst (verify_export alias_only c0 recorded) = Some AssertionError"
    by (simp add: verify_export_def check_output_def alias_only_def calm_def Let_def listing_members)
  ultimately show ?thesis by (simp add: listing_members alias_only_def)
qed



end
